theory Spec2Isabelle
  imports Main "HOL-Library.Sublist"
begin

section \<open>Bounded FIFO caches (modules/consensus/cache.go)\<close>

text \<open>
  The three caches of the source (\<open>siacoinOutputCache\<close>, \<open>fileContractCache\<close>,
  \<open>blockCache\<close>) are the same code over three key and value types and three
  capacities. They are embedded once, polymorphic in both types, with the capacity as
  a parameter. The slice of the source (\<open>outputs\<close>, \<open>contracts\<close>, \<open>blocks\<close>) is the
  field \<open>entries\<close>. An index expression of Go that is out of range panics; the panic is
  a value of the model.
\<close>

datatype panic = IndexOutOfRange

record ('k, 'v) cache =
  index :: "'k \<rightharpoonup> nat"
  entries :: "('k \<times> 'v) list"
  tip :: nat

definition scoCacheSize :: nat where
  "scoCacheSize = 200000"

definition fcCacheSize :: nat where
  "fcCacheSize = 100000"

definition blockCacheSize :: nat where
  "blockCacheSize = 32"

text \<open>\<open>make([]info, size)\<close> fills the slice with the zero value of the entry type.\<close>

definition newCache :: "nat \<Rightarrow> 'k \<times> 'v \<Rightarrow> ('k, 'v) cache" where
  "newCache cap zero = \<lparr>index = Map.empty, entries = replicate cap zero, tip = 0\<rparr>"

text \<open>
  \<open>Lookup\<close> returns the pair (value, found) of the source as an option: \<open>None\<close> is
  (zero value, false).
\<close>

definition Lookup :: "('k, 'v) cache \<Rightarrow> 'k \<Rightarrow> panic + 'v option" where
  "Lookup c id' =
     (case index c id' of
        None \<Rightarrow> Inr None
      | Some i \<Rightarrow> if i < length (entries c) then Inr (Some (snd (entries c ! i)))
                  else Inl IndexOutOfRange)"

definition Push :: "nat \<Rightarrow> ('k, 'v) cache \<Rightarrow> 'k \<Rightarrow> 'v \<Rightarrow> panic + ('k, 'v) cache" where
  "Push cap c id' v =
     (if index c id' \<noteq> None then Inr c
      else
        let tip1 = tip c + 1;
            tip2 = (if tip1 \<ge> cap then 0 else tip1)
        in if tip2 < length (entries c) then
             let old = fst (entries c ! tip2)
             in Inr \<lparr>index = ((index c)(old := None))(id' \<mapsto> tip2),
                     entries = (entries c)[tip2 := (id', v)],
                     tip = tip2\<rparr>
           else Inl IndexOutOfRange)"

text \<open>A sequence of \<open>Push\<close> calls; a panic ends it.\<close>

fun pushAll :: "nat \<Rightarrow> ('k, 'v) cache \<Rightarrow> ('k \<times> 'v) list \<Rightarrow> panic + ('k, 'v) cache" where
  "pushAll cap c [] = Inr c"
| "pushAll cap c ((k, v) # ops) =
     (case Push cap c k v of Inl e \<Rightarrow> Inl e | Inr c' \<Rightarrow> pushAll cap c' ops)"

text \<open>What every cache built by \<open>newCache\<close> and \<open>Push\<close> satisfies.\<close>

definition cacheInv :: "nat \<Rightarrow> ('k, 'v) cache \<Rightarrow> bool" where
  "cacheInv cap c \<longleftrightarrow>
     length (entries c) = cap \<and>
     (\<forall>k i. index c k = Some i \<longrightarrow> i < cap \<and> fst (entries c ! i) = k)"

section \<open>Transaction pool (modules/transactionpool, second part of cache.go)\<close>

text \<open>
  Identifiers (\<open>types.TransactionID\<close>, \<open>modules.TransactionSetID\<close>, \<open>ObjectID\<close>) are
  32-byte hashes, read as natural numbers.

  A transaction is an external value. The model keeps what the pool reads of it: its
  identifier \<open>ID()\<close>, its miner fees, and per field the object identifiers that
  \<open>relatedObjectIDs\<close> collects (the parent id of an input, revision or proof, the id
  \<open>t.SiacoinOutputID(i)\<close> of the i-th output, and so on).
\<close>

type_synonym ObjectID = nat
type_synonym TransactionID = nat
type_synonym TransactionSetID = nat
type_synonym Currency = nat
type_synonym byte = nat

record Transaction =
  ID :: TransactionID
  SiacoinInputs :: "ObjectID list"
  SiacoinOutputs :: "ObjectID list"
  FileContracts :: "ObjectID list"
  FileContractRevisions :: "ObjectID list"
  StorageProofs :: "ObjectID list"
  SiafundInputs :: "ObjectID list"
  SiafundOutputs :: "ObjectID list"
  MinerFees :: "Currency list"

text \<open>Of \<open>modules.ConsensusChange\<close> the pool reads the ids of three lists of diffs.\<close>

record ConsensusChange =
  SiacoinOutputDiffs :: "ObjectID list"
  FileContractDiffs :: "ObjectID list"
  SiafundOutputDiffs :: "ObjectID list"

text \<open>
  \<open>types.Currency\<close> belongs to \<open>go.sia.tech/core/types\<close>, outside the repository:
  an unsigned integer of 128 bits, whose methods \<open>Add\<close> and \<open>Mul64\<close> panic when the
  result does not fit. A currency is a natural number up to \<open>maxCurrency\<close>; the two
  methods return \<open>None\<close> where the library panics.
\<close>

definition maxCurrency :: nat where
  "maxCurrency = 340282366920938463463374607431768211455"

definition Currency_Add :: "Currency \<Rightarrow> Currency \<Rightarrow> Currency option" where
  "Currency_Add c v = (if c + v > maxCurrency then None else Some (c + v))"

definition Currency_Mul64 :: "Currency \<Rightarrow> nat \<Rightarrow> Currency option" where
  "Currency_Mul64 c v = (if c * v > maxCurrency then None else Some (c * v))"

text \<open>
  The errors the two functions return, and \<open>CurrencyOverflow\<close>: not an error value of
  the source, but the panic of \<open>Add\<close> or \<open>Mul64\<close>, which ends the call (no statement
  after it runs, so the pool is as the call found it up to that point).
\<close>

datatype error =
    errEmptySet
  | errLowMinerFees
  | ErrDuplicateTransactionSet
  | ConsensusConflict string
  | NonStandard string
  | CurrencyOverflow

record TransactionPool =
  transactionSets :: "TransactionSetID \<rightharpoonup> Transaction list"
  knownObjects :: "ObjectID \<rightharpoonup> TransactionSetID"
  transactionSetDiffs :: "TransactionSetID \<rightharpoonup> ConsensusChange"
  transactionHeights :: "TransactionID \<rightharpoonup> nat"
  transactionListSize :: int
  blockHeight :: nat

text \<open>
  What the functions of the source call and the repository's files here do not define
  is a parameter: the encoder (\<open>WritePrefix\<close>, \<open>Transaction.EncodeTo\<close>), the hasher,
  \<open>isStandardTransactionSet\<close>, \<open>transactionConfirmed\<close>, the constant
  \<open>TransactionPoolSizeForFee\<close>, and \<open>requiredFeesToExtendTpoolAtSize\<close>, which the source
  computes in floating point (\<open>math.Pow\<close> on \<open>float64\<close>, then \<open>modules.FromFloat\<close>).
  Go ranges over a map in an unspecified order: \<open>oidRank\<close> and \<open>setRank\<close> choose the
  order in which the keys of a map of objects and of a map of sets are visited (keys of
  lower rank first), so that a statement for every \<open>env\<close> is one for every order.
\<close>

record env =
  WritePrefix :: "nat \<Rightarrow> byte list"
  encodeTxn :: "Transaction \<Rightarrow> byte list"
  hashSum :: "byte list \<Rightarrow> TransactionSetID"
  isStandardTransactionSet :: "Transaction list \<Rightarrow> error + nat"
  transactionConfirmed :: "TransactionID \<Rightarrow> bool"
  TransactionPoolSizeForFee :: int
  requiredFeesToExtendTpoolAtSize :: "int \<Rightarrow> Currency"
  oidRank :: "ObjectID \<Rightarrow> nat"
  setRank :: "TransactionSetID \<Rightarrow> nat"

definition EncodeTo :: "env \<Rightarrow> Transaction list \<Rightarrow> byte list" where
  "EncodeTo e ts = WritePrefix e (length ts) @ concat (map (encodeTxn e) ts)"

definition EncodedLen :: "env \<Rightarrow> Transaction list \<Rightarrow> int" where
  "EncodedLen e ts = int (length (EncodeTo e ts))"

text \<open>\<open>h := types.NewHasher(); transactionSet(ts).EncodeTo(h.E); h.Sum()\<close>\<close>

definition setIDof :: "env \<Rightarrow> Transaction list \<Rightarrow> TransactionSetID" where
  "setIDof e ts = hashSum e (EncodeTo e ts)"

definition txnObjectIDs :: "Transaction \<Rightarrow> ObjectID list" where
  "txnObjectIDs t =
     SiacoinInputs t @ SiacoinOutputs t @ FileContracts t @ FileContractRevisions t @
     StorageProofs t @ SiafundInputs t @ SiafundOutputs t"

text \<open>The keys of \<open>oidMap\<close>, in the order the final range visits them.\<close>

definition relatedObjectIDs :: "env \<Rightarrow> Transaction list \<Rightarrow> ObjectID list" where
  "relatedObjectIDs e ts = sort_key (oidRank e) (remdups (concat (map txnObjectIDs ts)))"

definition requiredFeesToExtendTpool :: "env \<Rightarrow> TransactionPool \<Rightarrow> Currency" where
  "requiredFeesToExtendTpool e tp =
     (if transactionListSize tp < TransactionPoolSizeForFee e then 0
      else requiredFeesToExtendTpoolAtSize e (transactionListSize tp))"

definition checkTransactionSetComposition ::
  "env \<Rightarrow> TransactionPool \<Rightarrow> Transaction list \<Rightarrow> error + nat" where
  "checkTransactionSetComposition e tp ts =
     (if transactionSets tp (setIDof e ts) \<noteq> None then Inl ErrDuplicateTransactionSet
      else case isStandardTransactionSet e ts of
             Inl err \<Rightarrow> Inl err
           | Inr setSize \<Rightarrow> Inr setSize)"

text \<open>
  The two nested loops \<open>setFees = setFees.Add(fee)\<close> over \<open>txn.MinerFees\<close>: the
  inner loop over the fees of one transaction, the outer loop over the transactions,
  from \<open>setFees = 0\<close>. The first \<open>Add\<close> that overflows ends both.
\<close>

fun addFees :: "Currency list \<Rightarrow> Currency \<Rightarrow> Currency option" where
  "addFees [] acc = Some acc"
| "addFees (fee # fees) acc =
     (case Currency_Add acc fee of None \<Rightarrow> None | Some acc' \<Rightarrow> addFees fees acc')"

fun addSetFees :: "Transaction list \<Rightarrow> Currency \<Rightarrow> Currency option" where
  "addSetFees [] acc = Some acc"
| "addSetFees (txn # ts) acc =
     (case addFees (MinerFees txn) acc of None \<Rightarrow> None | Some acc' \<Rightarrow> addSetFees ts acc')"

definition setFees :: "Transaction list \<Rightarrow> Currency option" where
  "setFees ts = addSetFees ts 0"

text \<open>The loop \<open>for _, oid := range oids\<close> that collects the hits in \<open>knownObjects\<close>.\<close>

definition findConflicts :: "TransactionPool \<Rightarrow> ObjectID list \<Rightarrow> TransactionSetID list" where
  "findConflicts tp oids = List.map_filter (knownObjects tp) oids"

text \<open>Reading a missing key of \<open>transactionSets\<close> gives the nil slice.\<close>

definition lookupSet :: "TransactionPool \<Rightarrow> TransactionSetID \<Rightarrow> Transaction list" where
  "lookupSet tp c = (case transactionSets tp c of None \<Rightarrow> [] | Some s \<Rightarrow> s)"

text \<open>The assignments \<open>conflictMap[conflictTxn.ID()] = conflict\<close>, in program order.\<close>

definition conflictAssignments ::
  "TransactionPool \<Rightarrow> TransactionSetID list \<Rightarrow> (TransactionID \<times> TransactionSetID) list" where
  "conflictAssignments tp conflicts =
     concat (map (\<lambda>conflict. map (\<lambda>conflictTxn. (ID conflictTxn, conflict)) (lookupSet tp conflict))
                 conflicts)"

definition buildConflictMap ::
  "TransactionPool \<Rightarrow> TransactionSetID list \<Rightarrow> (TransactionID \<rightharpoonup> TransactionSetID)" where
  "buildConflictMap tp conflicts =
     fold (\<lambda>(k, c) m. m(k \<mapsto> c)) (conflictAssignments tp conflicts) Map.empty"

definition dedupSet :: "TransactionPool \<Rightarrow> TransactionSetID list \<Rightarrow> Transaction list \<Rightarrow> Transaction list" where
  "dedupSet tp conflicts ts = filter (\<lambda>t. buildConflictMap tp conflicts (ID t) = None) ts"

text \<open>
  The keys of \<open>supersetMap\<close> (the values of \<open>conflictMap\<close>), in the order the range
  that builds the superset visits them. The second range over \<open>supersetMap\<close>, which
  evicts, visits each key once as well, and what it leaves does not depend on its order.
\<close>

definition supersetKeys :: "env \<Rightarrow> TransactionPool \<Rightarrow> TransactionSetID list \<Rightarrow> TransactionSetID list" where
  "supersetKeys e tp conflicts =
     sort_key (setRank e)
       (remdups (map snd (filter (\<lambda>(k, c). buildConflictMap tp conflicts k = Some c)
                                 (conflictAssignments tp conflicts))))"

definition mergeSuperset ::
  "env \<Rightarrow> TransactionPool \<Rightarrow> TransactionSetID list \<Rightarrow> Transaction list \<Rightarrow> Transaction list" where
  "mergeSuperset e tp conflicts dedup =
     concat (map (lookupSet tp) (supersetKeys e tp conflicts)) @ dedup"

text \<open>The loop \<open>Remove the conflicts from the transaction pool\<close>.\<close>

definition evictSet :: "env \<Rightarrow> TransactionSetID \<Rightarrow> TransactionPool \<Rightarrow> TransactionPool" where
  "evictSet e conflict tp =
     tp\<lparr>transactionListSize := transactionListSize tp - EncodedLen e (lookupSet tp conflict),
        transactionSets := (transactionSets tp)(conflict := None),
        transactionSetDiffs := (transactionSetDiffs tp)(conflict := None)\<rparr>"

definition evictConflicts :: "env \<Rightarrow> TransactionSetID list \<Rightarrow> TransactionPool \<Rightarrow> TransactionPool" where
  "evictConflicts e keys tp = fold (evictSet e) keys tp"

text \<open>The loop that records \<open>tp.blockHeight\<close> for the transactions seen first.\<close>

definition recordHeights ::
  "nat \<Rightarrow> Transaction list \<Rightarrow> (TransactionID \<rightharpoonup> nat) \<Rightarrow> (TransactionID \<rightharpoonup> nat)" where
  "recordHeights h ts hs =
     fold (\<lambda>txn m. if m (ID txn) = None then m(ID txn \<mapsto> h) else m) ts hs"

definition assignObjects ::
  "TransactionSetID \<Rightarrow> ObjectID list \<Rightarrow> (ObjectID \<rightharpoonup> TransactionSetID) \<Rightarrow> (ObjectID \<rightharpoonup> TransactionSetID)" where
  "assignObjects setID oids known = fold (\<lambda>oid m. m(oid \<mapsto> setID)) oids known"

text \<open>
  \<open>Add the transaction set to the pool\<close>: the same statements in both functions of
  the source, but for the objects that are given to the new set.
\<close>

definition addSet ::
  "env \<Rightarrow> Transaction list \<Rightarrow> ObjectID list \<Rightarrow> ConsensusChange \<Rightarrow> TransactionPool \<Rightarrow> TransactionPool" where
  "addSet e ts oids cc tp =
     (let setID = setIDof e ts
      in tp\<lparr>transactionSets := (transactionSets tp)(setID \<mapsto> ts),
            knownObjects := assignObjects setID oids (knownObjects tp),
            transactionSetDiffs := (transactionSetDiffs tp)(setID \<mapsto> cc),
            transactionListSize := transactionListSize tp + EncodedLen e ts,
            transactionHeights := recordHeights (blockHeight tp) ts (transactionHeights tp)\<rparr>)"

definition diffObjects :: "ConsensusChange \<Rightarrow> ObjectID list" where
  "diffObjects cc = SiacoinOutputDiffs cc @ FileContractDiffs cc @ SiafundOutputDiffs cc"

text \<open>
  \<open>handleConflicts\<close> from the merge on (the part after the recursive call), with the
  conflict list and the deduplicated set of the level that reaches it.
\<close>

definition mergeConflicts ::
  "env \<Rightarrow> TransactionPool \<Rightarrow> Transaction list \<Rightarrow> TransactionSetID list \<Rightarrow>
   (Transaction list \<Rightarrow> string + ConsensusChange) \<Rightarrow> (error + Transaction list) \<times> TransactionPool" where
  "mergeConflicts e tp dedup conflicts txnFn =
     (let superset = mergeSuperset e tp conflicts dedup
      in case checkTransactionSetComposition e tp superset of
           Inl err \<Rightarrow> (Inl err, tp)
         | Inr setSize \<Rightarrow>
             (case Currency_Mul64 (requiredFeesToExtendTpool e tp) setSize of
                None \<Rightarrow> (Inl CurrencyOverflow, tp)
              | Some requiredFees \<Rightarrow>
                  (case setFees superset of
                     None \<Rightarrow> (Inl CurrencyOverflow, tp)
                   | Some fees \<Rightarrow>
                       if requiredFees > fees then (Inl errLowMinerFees, tp)
                       else case txnFn superset of
                              Inl err \<Rightarrow>
                                (Inl (ConsensusConflict
                                   (''provided transaction set has prereqs, but is still invalid: ''
                                    @ err)), tp)
                            | Inr cc \<Rightarrow>
                                (Inr superset,
                                 addSet e superset (diffObjects cc) cc
                                   (evictConflicts e (supersetKeys e tp conflicts) tp)))))"

function handleConflicts ::
  "env \<Rightarrow> TransactionPool \<Rightarrow> Transaction list \<Rightarrow> TransactionSetID list \<Rightarrow>
   (Transaction list \<Rightarrow> string + ConsensusChange) \<Rightarrow> (error + Transaction list) \<times> TransactionPool" where
  "handleConflicts e tp ts conflicts txnFn =
     (if length (dedupSet tp conflicts ts) = 0 then (Inl ErrDuplicateTransactionSet, tp)
      else if length (dedupSet tp conflicts ts) < length ts then
        handleConflicts e tp (dedupSet tp conflicts ts)
          (findConflicts tp (relatedObjectIDs e (dedupSet tp conflicts ts))) txnFn
      else mergeConflicts e tp (dedupSet tp conflicts ts) conflicts txnFn)"
  by pat_completeness auto
termination
  by (relation "measure (\<lambda>(e, tp, ts, conflicts, txnFn). length ts)") auto

text \<open>
  The conflict list of the level of \<open>handleConflicts\<close> that merges, when the first
  level is given a conflict list as \<open>acceptTransactionSet\<close> computes it: the given list
  when the deduplication prunes nothing, the recomputed list after a pruning.
\<close>

definition mergedConflicts ::
  "env \<Rightarrow> TransactionPool \<Rightarrow> Transaction list \<Rightarrow> TransactionSetID list \<Rightarrow> TransactionSetID list" where
  "mergedConflicts e tp ts conflicts =
     (if length (dedupSet tp conflicts ts) < length ts
      then findConflicts tp (relatedObjectIDs e (dedupSet tp conflicts ts))
      else conflicts)"

definition acceptTransactionSet ::
  "env \<Rightarrow> TransactionPool \<Rightarrow> Transaction list \<Rightarrow>
   (Transaction list \<Rightarrow> string + ConsensusChange) \<Rightarrow> (error + Transaction list) \<times> TransactionPool" where
  "acceptTransactionSet e tp oldTS txnFn =
     (if length oldTS = 0 then (Inl errEmptySet, tp)
      else
        let ts = filter (\<lambda>txn. \<not> transactionConfirmed e (ID txn)) oldTS
        in if length ts = 0 then (Inl ErrDuplicateTransactionSet, tp)
           else case checkTransactionSetComposition e tp ts of
                  Inl err \<Rightarrow> (Inl err, tp)
                | Inr setSize \<Rightarrow>
                    (case Currency_Mul64 (requiredFeesToExtendTpool e tp) setSize of
                       None \<Rightarrow> (Inl CurrencyOverflow, tp)
                     | Some requiredFees \<Rightarrow>
                         (case setFees ts of
                            None \<Rightarrow> (Inl CurrencyOverflow, tp)
                          | Some fees \<Rightarrow>
                              if requiredFees > fees then (Inl errLowMinerFees, tp)
                              else
                                let oids = relatedObjectIDs e ts;
                                    conflicts = findConflicts tp oids
                                in if length conflicts > 0
                                   then handleConflicts e tp ts conflicts txnFn
                                   else case txnFn ts of
                                          Inl err \<Rightarrow>
                                            (Inl (ConsensusConflict
                                               (''provided transaction set is invalid: '' @ err)),
                                             tp)
                                        | Inr cc \<Rightarrow> (Inr ts, addSet e ts oids cc tp))))"

text \<open>The pool before any submission, at block height \<open>h\<close>.\<close>

definition newPool :: "nat \<Rightarrow> TransactionPool" where
  "newPool h = \<lparr>transactionSets = Map.empty, knownObjects = Map.empty,
     transactionSetDiffs = Map.empty, transactionHeights = Map.empty,
     transactionListSize = 0, blockHeight = h\<rparr>"

subsection \<open>A concrete ledger and three submissions\<close>

text \<open>
  A small instance on which the functions above are evaluated: a transaction is encoded
  as the one byte of its identifier after an 8-byte length prefix, the size limit of
  standardness is never reached, the transaction 9 is confirmed, a fee is due from 10
  pooled bytes on, and the ledger's diff lists the outputs a set spends and creates.
  \<open>txC\<close> spends the output 101 that \<open>txA\<close> creates.
\<close>

definition exEnv :: env where
  "exEnv = \<lparr>WritePrefix = (\<lambda>n. [0, 0, 0, 0, 0, 0, 0, n]),
            encodeTxn = (\<lambda>t. [ID t]),
            hashSum = foldl (\<lambda>h b. 10 * h + b) 0,
            isStandardTransactionSet = (\<lambda>ts. Inr (8 + length ts)),
            transactionConfirmed = (\<lambda>i. i = 9),
            TransactionPoolSizeForFee = 10,
            requiredFeesToExtendTpoolAtSize = (\<lambda>s. nat s),
            oidRank = (\<lambda>x. x),
            setRank = (\<lambda>x. x)\<rparr>"

definition mkTxn :: "nat \<Rightarrow> nat list \<Rightarrow> nat list \<Rightarrow> nat list \<Rightarrow> Transaction" where
  "mkTxn i ins outs fees =
     \<lparr>ID = i, SiacoinInputs = ins, SiacoinOutputs = outs, FileContracts = [],
      FileContractRevisions = [], StorageProofs = [], SiafundInputs = [], SiafundOutputs = [],
      MinerFees = fees\<rparr>"

definition txA :: Transaction where "txA = mkTxn 1 [] [101] []"
definition txB :: Transaction where "txB = mkTxn 2 [] [102] []"
definition txC :: Transaction where "txC = mkTxn 3 [101] [103] []"
definition txD :: Transaction where "txD = mkTxn 9 [] [109] []"

definition mkDiff :: "ObjectID list \<Rightarrow> ConsensusChange" where
  "mkDiff oids = \<lparr>SiacoinOutputDiffs = oids, FileContractDiffs = [], SiafundOutputDiffs = []\<rparr>"

definition exTxnFn :: "Transaction list \<Rightarrow> string + ConsensusChange" where
  "exTxnFn ts = Inr (mkDiff (concat (map (\<lambda>t. SiacoinInputs t @ SiacoinOutputs t) ts)))"

text \<open>The pool after \<open>[txA]\<close> was admitted, and after \<open>[txB, txC]\<close> was merged with it.\<close>

definition pool1 :: TransactionPool where
  "pool1 = \<lparr>transactionSets = [11 \<mapsto> [txA]],
            knownObjects = [101 \<mapsto> 11],
            transactionSetDiffs = [11 \<mapsto> mkDiff [101]],
            transactionHeights = [1 \<mapsto> 0],
            transactionListSize = 9, blockHeight = 0\<rparr>"

definition pool2 :: TransactionPool where
  "pool2 = \<lparr>transactionSets = [3123 \<mapsto> [txA, txB, txC]],
            knownObjects = [101 \<mapsto> 3123, 102 \<mapsto> 3123, 103 \<mapsto> 3123],
            transactionSetDiffs = [3123 \<mapsto> mkDiff [101, 102, 101, 103]],
            transactionHeights = [1 \<mapsto> 0, 2 \<mapsto> 0, 3 \<mapsto> 0],
            transactionListSize = 11, blockHeight = 0\<rparr>"

text \<open>A transaction whose fees are 99: what 9 bytes cost when 11 bytes are pooled.\<close>

definition txE :: Transaction where "txE = mkTxn 5 [] [105] [90, 9]"

text \<open>
  A transaction whose two fees are \<open>2^127\<close> each: their sum is one more than
  \<open>maxCurrency\<close>.
\<close>

definition txF :: Transaction where
  "txF = mkTxn 6 [] [106]
           [170141183460469231731687303715884105728, 170141183460469231731687303715884105728]"

subsection \<open>The pools that submissions reach\<close>

text \<open>The sum of the encoded sizes of the sets in \<open>transactionSets\<close>.\<close>

definition poolBytes :: "env \<Rightarrow> TransactionPool \<Rightarrow> int" where
  "poolBytes e tp = (\<Sum>k\<in>dom (transactionSets tp). EncodedLen e (lookupSet tp k))"

text \<open>
  The pools reached from the new pool by successful calls of \<open>acceptTransactionSet\<close>.
  The candidate, the validation callback and the collaborators may differ from call to
  call; the encoding of transactions does not.
\<close>

inductive reachable :: "env \<Rightarrow> TransactionPool \<Rightarrow> bool" for e :: env where
  reachable_new: "reachable e (newPool h)"
| reachable_submit:
    "reachable e tp \<Longrightarrow> WritePrefix e' = WritePrefix e \<Longrightarrow> encodeTxn e' = encodeTxn e \<Longrightarrow>
     acceptTransactionSet e' tp ts txnFn = (Inr s, tp') \<Longrightarrow> reachable e tp'"

text \<open>The size invariant: the counter is the sum over the (finitely many) registered sets.\<close>

definition sizeInv :: "env \<Rightarrow> TransactionPool \<Rightarrow> bool" where
  "sizeInv e tp \<longleftrightarrow> finite (dom (transactionSets tp)) \<and> transactionListSize tp = poolBytes e tp"

section \<open>Properties\<close>

declare handleConflicts.simps [simp del]

lemmas ex_defs = exEnv_def newPool_def txA_def txB_def txC_def txD_def txE_def txF_def mkTxn_def mkDiff_def
  exTxnFn_def pool1_def pool2_def

lemmas pool_defs = acceptTransactionSet_def checkTransactionSetComposition_def setIDof_def
  EncodeTo_def EncodedLen_def requiredFeesToExtendTpool_def setFees_def Currency_Add_def
  Currency_Mul64_def maxCurrency_def relatedObjectIDs_def
  txnObjectIDs_def findConflicts_def List.map_filter_def addSet_def assignObjects_def
  recordHeights_def diffObjects_def mergeConflicts_def mergeSuperset_def supersetKeys_def
  dedupSet_def buildConflictMap_def conflictAssignments_def lookupSet_def evictConflicts_def
  evictSet_def Let_def

lemma ex_step1:
  "acceptTransactionSet exEnv (newPool 0) [txA] exTxnFn = (Inr [txA], pool1)"
  by (simp add: ex_defs pool_defs)

lemma ex_step1_again:
  "acceptTransactionSet exEnv pool1 [txA] exTxnFn = (Inl ErrDuplicateTransactionSet, pool1)"
  by (simp add: ex_defs pool_defs)

lemma ex_step2:
  "acceptTransactionSet exEnv pool1 [txB, txC] exTxnFn = (Inr [txA, txB, txC], pool2)"
  by (simp add: ex_defs pool_defs handleConflicts.simps fun_upd_twist)

lemma ex_step2_again:
  "acceptTransactionSet exEnv pool2 [txB, txC] exTxnFn = (Inl errLowMinerFees, pool2)"
  by (simp add: ex_defs pool_defs)

subsection \<open>Helper facts on the maps of the pool\<close>

lemma fold_assign_dom:
  "dom (fold (\<lambda>(k, c) m. m(k \<mapsto> c)) xs m0) = dom m0 \<union> fst ` set xs"
  by (induction xs arbitrary: m0) (auto split: prod.splits)

lemma fold_assign_ran:
  "fold (\<lambda>(k, c) m. m(k \<mapsto> c)) xs Map.empty k = Some c \<Longrightarrow> (k, c) \<in> set xs"
proof (induction xs rule: rev_induct)
  case Nil
  then show ?case by simp
next
  case (snoc x xs)
  then show ?case by (cases x) (auto split: if_splits)
qed

lemma dom_buildConflictMap:
  "dom (buildConflictMap tp cs) = ID ` (\<Union>c\<in>set cs. set (lookupSet tp c))"
  by (auto simp: buildConflictMap_def fold_assign_dom conflictAssignments_def image_iff) blast+

lemma assignObjects_apply:
  "assignObjects sid oids m x = (if x \<in> set oids then Some sid else m x)"
  unfolding assignObjects_def by (induction oids arbitrary: m) auto

lemma recordHeights_apply:
  "recordHeights h ts m k =
     (case m k of Some x \<Rightarrow> Some x | None \<Rightarrow> if k \<in> ID ` set ts then Some h else None)"
  unfolding recordHeights_def
  by (induction ts arbitrary: m) (auto split: option.splits)

subsection \<open>An error leaves the pool as it was\<close>

lemma mergeConflicts_error:
  "fst (mergeConflicts e tp d cs f) = Inl err \<Longrightarrow> snd (mergeConflicts e tp d cs f) = tp"
  by (auto simp: mergeConflicts_def Let_def split: sum.splits option.splits if_splits)

lemma handleConflicts_error:
  "fst (handleConflicts e tp ts cs f) = Inl err \<Longrightarrow> snd (handleConflicts e tp ts cs f) = tp"
proof (induction e tp ts cs f rule: handleConflicts.induct)
  case (1 e tp ts conflicts txnFn)
  show ?case
  proof (cases "length (dedupSet tp conflicts ts) = 0")
    case True
    then show ?thesis by (simp add: handleConflicts.simps[of e tp ts])
  next
    case ne: False
    show ?thesis
    proof (cases "length (dedupSet tp conflicts ts) < length ts")
      case True
      with ne "1.prems" "1.IH" show ?thesis
        by (simp add: handleConflicts.simps[of e tp ts])
    next
      case False
      with ne "1.prems" show ?thesis
        by (simp add: handleConflicts.simps[of e tp ts] mergeConflicts_error)
    qed
  qed
qed

text \<open>
  Claim C1. Whenever \<open>acceptTransactionSet\<close> (with its call of \<open>handleConflicts\<close>)
  returns an error, the pool it leaves is the pool it was given: the five maps and
  counters \<open>transactionSets\<close>, \<open>knownObjects\<close>, \<open>transactionSetDiffs\<close>,
  \<open>transactionHeights\<close> and \<open>transactionListSize\<close> are all unchanged.
\<close>

theorem accept_error_keeps_state:
  "fst (acceptTransactionSet e tp ts txnFn) = Inl err \<Longrightarrow>
   snd (acceptTransactionSet e tp ts txnFn) = tp"
proof -
  assume a: "fst (acceptTransactionSet e tp ts txnFn) = Inl err"
  let ?ts = "filter (\<lambda>txn. \<not> transactionConfirmed e (ID txn)) ts"
  let ?cs = "findConflicts tp (relatedObjectIDs e ?ts)"
  show ?thesis
  proof (cases "acceptTransactionSet e tp ts txnFn = handleConflicts e tp ?ts ?cs txnFn")
    case True
    with a handleConflicts_error[of e tp ?ts ?cs txnFn err] show ?thesis by simp
  next
    case False
    with a show ?thesis
      by (auto simp: acceptTransactionSet_def Let_def split: sum.splits option.splits if_splits)
  qed
qed

theorem accept_error_keeps_state_witness:
  "fst (acceptTransactionSet exEnv pool2 [txB, txC] exTxnFn) = Inl errLowMinerFees \<and>
   snd (acceptTransactionSet exEnv pool2 [txB, txC] exTxnFn) = pool2"
proof -
  have h: "fst (acceptTransactionSet exEnv pool2 [txB, txC] exTxnFn) = Inl errLowMinerFees"
    by (simp add: ex_step2_again)
  show ?thesis using h accept_error_keeps_state[OF h] by simp
qed

subsection \<open>The bounded caches\<close>

lemma cacheInv_newCache: "cacheInv cap (newCache cap zero)"
  by (simp add: cacheInv_def newCache_def)

lemma Push_present: "index c k \<noteq> None \<Longrightarrow> Push cap c k v = Inr c"
  by (simp add: Push_def)

lemma Push_inv:
  assumes "cacheInv cap c" and "0 < cap"
  shows "\<exists>c'. Push cap c k v = Inr c' \<and> cacheInv cap c'"
proof (cases "index c k")
  case (Some i)
  with assms show ?thesis by (simp add: Push_def)
next
  case None
  define t where "t = (if tip c + 1 \<ge> cap then 0 else tip c + 1)"
  have t: "t < cap" using assms(2) by (simp add: t_def)
  have len: "length (entries c) = cap" using assms(1) by (simp add: cacheInv_def)
  define c' where "c' = \<lparr>index = ((index c)(fst (entries c ! t) := None))(k \<mapsto> t),
                     entries = (entries c)[t := (k, v)], tip = t\<rparr>"
  have P: "Push cap c k v = Inr c'"
    using None t len by (simp add: Push_def Let_def t_def c'_def)
  have "cacheInv cap c'"
    unfolding cacheInv_def
  proof (intro conjI allI impI)
    show "length (entries c') = cap" by (simp add: c'_def len)
  next
    fix k' i assume h: "index c' k' = Some i"
    show "i < cap"
      using h t assms(1) by (auto simp: c'_def cacheInv_def split: if_splits)
  next
    fix k' i assume h: "index c' k' = Some i"
    show "fst (entries c' ! i) = k'"
    proof (cases "k' = k")
      case True
      then show ?thesis using h t len by (simp add: c'_def)
    next
      case False
      then have old: "k' \<noteq> fst (entries c ! t)" "index c k' = Some i"
        using h by (auto simp: c'_def split: if_splits)
      then have "fst (entries c ! i) = k'" "i < cap"
        using assms(1) by (auto simp: cacheInv_def)
      with old have "i \<noteq> t" by auto
      then show ?thesis using \<open>fst (entries c ! i) = k'\<close> by (simp add: c'_def)
    qed
  qed
  with P show ?thesis by blast
qed

lemma pushAll_inv:
  "cacheInv cap c \<Longrightarrow> 0 < cap \<Longrightarrow> \<exists>c'. pushAll cap c ops = Inr c' \<and> cacheInv cap c'"
proof (induction ops arbitrary: c)
  case Nil
  then show ?case by simp
next
  case (Cons a ops)
  obtain k v where a: "a = (k, v)" by (cases a)
  from Push_inv[OF Cons.prems, of k v] obtain c1 where
    c1: "Push cap c k v = Inr c1" "cacheInv cap c1" by blast
  from Cons.IH[OF c1(2) Cons.prems(2)] show ?case using a c1(1) by simp
qed

lemma cacheInv_card:
  assumes "cacheInv cap c"
  shows "card (dom (index c)) \<le> cap"
proof -
  have sub: "dom (index c) \<subseteq> fst ` set (entries c)"
  proof
    fix k assume "k \<in> dom (index c)"
    then obtain i where "index c k = Some i" by blast
    with assms have "i < length (entries c)" "fst (entries c ! i) = k"
      by (auto simp: cacheInv_def)
    then show "k \<in> fst ` set (entries c)"
      by (metis image_eqI nth_mem)
  qed
  have "card (dom (index c)) \<le> card (fst ` set (entries c))"
    by (rule card_mono) (use sub in auto)
  also have "\<dots> \<le> card (set (entries c))" by (rule card_image_le) simp
  also have "\<dots> \<le> length (entries c)" by (rule card_length)
  finally show ?thesis using assms by (simp add: cacheInv_def)
qed

lemma Push_fresh_Lookup:
  assumes "cacheInv cap c" "0 < cap" "index c k = None"
  shows "\<exists>c1. Push cap c k v = Inr c1 \<and> index c1 k \<noteq> None \<and> Lookup c1 k = Inr (Some v)"
proof -
  define t where "t = (if tip c + 1 \<ge> cap then 0 else tip c + 1)"
  have t: "t < cap" using assms(2) by (simp add: t_def)
  have len: "length (entries c) = cap" using assms(1) by (simp add: cacheInv_def)
  show ?thesis
    using assms(3) t len by (simp add: Push_def Let_def t_def[symmetric] Lookup_def)
qed

text \<open>
  Claim C10. In a cache of capacity \<open>cap\<close> (\<open>scoCacheSize\<close>, \<open>fcCacheSize\<close> or
  \<open>blockCacheSize\<close> in the source, any positive number here), after any sequence of
  \<open>Push\<close> calls on the new cache: no call has panicked; the index holds at most
  \<open>cap\<close> keys; a \<open>Push\<close> of a key that is in the index returns the cache as it is
  (same index, same entries, same \<open>tip\<close>), whatever the value pushed; and after the
  \<open>Push\<close> of a key \<open>k\<close> that was not in the index with value \<open>v\<close>, a second \<open>Push\<close>
  of \<open>k\<close> with any value \<open>v'\<close> changes nothing and \<open>Lookup\<close> of \<open>k\<close> still gives \<open>v\<close>.
\<close>

theorem cache_push_present_noop:
  assumes "0 < cap"
  shows "\<exists>c. pushAll cap (newCache cap zero) ops = Inr c \<and>
             card (dom (index c)) \<le> cap \<and>
             (\<forall>k v. index c k \<noteq> None \<longrightarrow> Push cap c k v = Inr c) \<and>
             (\<forall>k v v'. index c k = None \<longrightarrow>
                (\<exists>c1. Push cap c k v = Inr c1 \<and> Push cap c1 k v' = Inr c1 \<and>
                      Lookup c1 k = Inr (Some v)))"
proof -
  from pushAll_inv[OF cacheInv_newCache assms, of zero ops] obtain c where
    c: "pushAll cap (newCache cap zero) ops = Inr c" "cacheInv cap c" by blast
  have "card (dom (index c)) \<le> cap" by (rule cacheInv_card[OF c(2)])
  moreover have "\<forall>k v. index c k \<noteq> None \<longrightarrow> Push cap c k v = Inr c"
    by (simp add: Push_present)
  moreover have "\<forall>k v v'. index c k = None \<longrightarrow>
                (\<exists>c1. Push cap c k v = Inr c1 \<and> Push cap c1 k v' = Inr c1 \<and>
                      Lookup c1 k = Inr (Some v))"
  proof (intro allI impI)
    fix k :: 'a and v v' :: 'b assume "index c k = None"
    from Push_fresh_Lookup[OF c(2) assms this, of v] obtain c1 where
      c1: "Push cap c k v = Inr c1" "index c1 k \<noteq> None" "Lookup c1 k = Inr (Some v)" by blast
    have "Push cap c1 k v' = Inr c1" using c1(2) by (rule Push_present)
    with c1 show "\<exists>c1. Push cap c k v = Inr c1 \<and> Push cap c1 k v' = Inr c1 \<and>
                      Lookup c1 k = Inr (Some v)" by auto
  qed
  ultimately show ?thesis using c(1) by blast
qed

theorem cache_push_present_noop_witness:
  "0 < blockCacheSize \<and>
   (\<exists>c. pushAll blockCacheSize (newCache blockCacheSize (0::nat, 0::nat))
           [(5, 7), (5, 9), (6, 1)] = Inr c \<and>
        card (dom (index c)) \<le> blockCacheSize \<and>
        (\<forall>k v. index c k \<noteq> None \<longrightarrow> Push blockCacheSize c k v = Inr c) \<and>
        (\<forall>k v v'. index c k = None \<longrightarrow>
           (\<exists>c1. Push blockCacheSize c k v = Inr c1 \<and> Push blockCacheSize c1 k v' = Inr c1 \<and>
                 Lookup c1 k = Inr (Some v))))"
proof -
  have h: "0 < blockCacheSize" by (simp add: blockCacheSize_def)
  show ?thesis
    using h cache_push_present_noop[OF h, of "(0::nat, 0::nat)" "[(5, 7), (5, 9), (6, 1)]"]
    by simp
qed

subsection \<open>Facts on fees, conflicts and deduplication\<close>

lemma addFees_sum:
  "acc \<le> maxCurrency \<Longrightarrow>
   addFees fs acc =
     (if acc + sum_list fs \<le> maxCurrency then Some (acc + sum_list fs) else None)"
  by (induction fs arbitrary: acc) (auto simp: Currency_Add_def)

lemma addSetFees_sum:
  "acc \<le> maxCurrency \<Longrightarrow>
   addSetFees ts acc =
     (if acc + sum_list (concat (map MinerFees ts)) \<le> maxCurrency
      then Some (acc + sum_list (concat (map MinerFees ts))) else None)"
  by (induction ts arbitrary: acc) (auto simp: addFees_sum)

lemma setFees_sum:
  "setFees ts =
     (if sum_list (concat (map MinerFees ts)) \<le> maxCurrency
      then Some (sum_list (concat (map MinerFees ts))) else None)"
  by (simp add: setFees_def addSetFees_sum)

lemma dedupSet_conv:
  "dedupSet tp cs ts = filter (\<lambda>t. ID t \<notin> ID ` (\<Union>c\<in>set cs. set (lookupSet tp c))) ts"
proof -
  have "buildConflictMap tp cs k = None \<longleftrightarrow> k \<notin> ID ` (\<Union>c\<in>set cs. set (lookupSet tp c))" for k
    using dom_buildConflictMap[of tp cs] by (metis domIff)
  then show ?thesis by (simp add: dedupSet_def)
qed

lemma set_relatedObjectIDs:
  "set (relatedObjectIDs e ts) = (\<Union>t\<in>set ts. set (txnObjectIDs t))"
  by (simp add: relatedObjectIDs_def)

lemma set_findConflicts:
  "set (findConflicts tp oids) = {c. \<exists>x\<in>set oids. knownObjects tp x = Some c}"
  by (force simp: findConflicts_def List.map_filter_def image_iff)

lemma findConflicts_dedup_subset:
  "set (findConflicts tp (relatedObjectIDs e (dedupSet tp cs ts)))
     \<subseteq> set (findConflicts tp (relatedObjectIDs e ts))"
  by (auto simp: set_findConflicts set_relatedObjectIDs dedupSet_def)

lemma dedupSet_idem:
  assumes "set cs' \<subseteq> set cs"
  shows "dedupSet tp cs' (dedupSet tp cs ts) = dedupSet tp cs ts"
proof -
  have "ID t \<notin> ID ` (\<Union>c\<in>set cs'. set (lookupSet tp c))"
    if "t \<in> set (dedupSet tp cs ts)" for t
  proof -
    from that have "ID t \<notin> ID ` (\<Union>c\<in>set cs. set (lookupSet tp c))"
      by (simp add: dedupSet_conv)
    with assms show ?thesis by blast
  qed
  then show ?thesis
    unfolding dedupSet_conv[of tp cs'] by (simp add: filter_id_conv)
qed

lemma distinct_supersetKeys: "distinct (supersetKeys e tp cs)"
  by (simp add: supersetKeys_def)

lemma supersetKeys_registered:
  assumes "c \<in> set (supersetKeys e tp cs)"
  shows "transactionSets tp c \<noteq> None"
proof -
  from assms obtain k where "(k, c) \<in> set (conflictAssignments tp cs)"
    by (auto simp: supersetKeys_def)
  then have "lookupSet tp c \<noteq> []"
    by (auto simp: conflictAssignments_def)
  then show ?thesis by (auto simp: lookupSet_def split: option.splits)
qed

lemma subseq_dedupSet: "subseq (dedupSet tp cs ts) ts"
  by (simp add: dedupSet_def)

lemma mergeConflicts_result:
  "fst (mergeConflicts e tp d cs f) = Inr s \<Longrightarrow> s = mergeSuperset e tp cs d"
  by (auto simp: mergeConflicts_def Let_def split: sum.splits option.splits if_splits)

lemma supersetKeys_subset: "set (supersetKeys e tp conflicts) \<subseteq> set conflicts"
proof
  fix c assume "c \<in> set (supersetKeys e tp conflicts)"
  then obtain k where "(k, c) \<in> set (conflictAssignments tp conflicts)"
    by (auto simp: supersetKeys_def)
  then show "c \<in> set conflicts"
    by (auto simp: conflictAssignments_def)
qed

lemma dedupSet_fresh:
  assumes "t \<in> set (dedupSet tp conflicts ts)" "k \<in> set (supersetKeys e tp conflicts)"
  shows "ID t \<notin> ID ` set (lookupSet tp k)"
proof -
  from assms(1) have "ID t \<notin> ID ` (\<Union>c\<in>set conflicts. set (lookupSet tp c))"
    by (simp add: dedupSet_conv)
  moreover have "k \<in> set conflicts" using assms(2) supersetKeys_subset by blast
  ultimately show ?thesis by blast
qed

lemma handleConflicts_unfold:
  "handleConflicts e tp ts conflicts txnFn =
     (if dedupSet tp conflicts ts = [] then (Inl ErrDuplicateTransactionSet, tp)
      else if length (dedupSet tp conflicts ts) < length ts then
        handleConflicts e tp (dedupSet tp conflicts ts)
          (findConflicts tp (relatedObjectIDs e (dedupSet tp conflicts ts))) txnFn
      else mergeConflicts e tp (dedupSet tp conflicts ts) conflicts txnFn)"
  by (subst handleConflicts.simps) simp

lemma handleConflicts_resolves:
  assumes "set (findConflicts tp (relatedObjectIDs e ts)) \<subseteq> set conflicts"
    and "dedupSet tp conflicts ts \<noteq> []"
  shows "handleConflicts e tp ts conflicts txnFn =
           mergeConflicts e tp (dedupSet tp conflicts ts) (mergedConflicts e tp ts conflicts) txnFn"
proof (cases "length (dedupSet tp conflicts ts) < length ts")
  case False
  then show ?thesis
    using assms(2) by (subst handleConflicts_unfold) (simp add: mergedConflicts_def)
next
  case True
  let ?d = "dedupSet tp conflicts ts"
  let ?cs = "findConflicts tp (relatedObjectIDs e ?d)"
  have sub: "set ?cs \<subseteq> set conflicts"
    using findConflicts_dedup_subset[of tp e conflicts ts] assms(1) by blast
  have idem: "dedupSet tp ?cs ?d = ?d" by (rule dedupSet_idem[OF sub])
  have "handleConflicts e tp ts conflicts txnFn = handleConflicts e tp ?d ?cs txnFn"
    using assms(2) True by (subst handleConflicts_unfold) simp
  also have "\<dots> = mergeConflicts e tp ?d ?cs txnFn"
    using assms(2) by (subst handleConflicts_unfold) (simp add: idem)
  finally show ?thesis using True by (simp add: mergedConflicts_def)
qed

lemma mergedConflicts_subset:
  assumes "set (findConflicts tp (relatedObjectIDs e ts)) \<subseteq> set conflicts"
  shows "set (mergedConflicts e tp ts conflicts) \<subseteq> set conflicts"
  using findConflicts_dedup_subset[of tp e conflicts ts] assms
  by (auto simp: mergedConflicts_def)

lemma mergedConflicts_covers:
  assumes "set (findConflicts tp (relatedObjectIDs e ts)) \<subseteq> set conflicts"
  shows "set (findConflicts tp (relatedObjectIDs e (dedupSet tp conflicts ts)))
           \<subseteq> set (mergedConflicts e tp ts conflicts)"
  using findConflicts_dedup_subset[of tp e conflicts ts] assms
  by (auto simp: mergedConflicts_def)

lemma set_supersetKeys: "set (supersetKeys e tp cs) = ran (buildConflictMap tp cs)"
proof
  show "set (supersetKeys e tp cs) \<subseteq> ran (buildConflictMap tp cs)"
  proof
    fix c assume "c \<in> set (supersetKeys e tp cs)"
    then obtain k where "buildConflictMap tp cs k = Some c"
      by (auto simp: supersetKeys_def)
    then show "c \<in> ran (buildConflictMap tp cs)" by (rule ranI)
  qed
next
  show "ran (buildConflictMap tp cs) \<subseteq> set (supersetKeys e tp cs)"
  proof
    fix c assume "c \<in> ran (buildConflictMap tp cs)"
    then obtain k where k: "buildConflictMap tp cs k = Some c" by (auto simp: ran_def)
    then have "(k, c) \<in> set (conflictAssignments tp cs)"
      unfolding buildConflictMap_def by (rule fold_assign_ran)
    with k have "(k, c) \<in> set (filter (\<lambda>(k, c). buildConflictMap tp cs k = Some c)
                                  (conflictAssignments tp cs))" by simp
    then have "c \<in> snd ` set (filter (\<lambda>(k, c). buildConflictMap tp cs k = Some c)
                                  (conflictAssignments tp cs))"
      by (rule image_eqI[rotated]) simp
    then show "c \<in> set (supersetKeys e tp cs)" by (simp add: supersetKeys_def)
  qed
qed

lemma conflict_ids_merged:
  assumes "c \<in> set cs" "t \<in> set (lookupSet tp c)"
  shows "ID t \<in> ID ` set (concat (map (lookupSet tp) (supersetKeys e tp cs)))"
proof -
  have "ID t \<in> dom (buildConflictMap tp cs)"
    unfolding dom_buildConflictMap using assms by blast
  then obtain k where k: "buildConflictMap tp cs (ID t) = Some k" by blast
  then have "(ID t, k) \<in> set (conflictAssignments tp cs)"
    unfolding buildConflictMap_def by (rule fold_assign_ran)
  then obtain t' where t': "t' \<in> set (lookupSet tp k)" "ID t' = ID t"
    by (auto simp: conflictAssignments_def)
  have "k \<in> ran (buildConflictMap tp cs)" using k by (rule ranI)
  then have "k \<in> set (supersetKeys e tp cs)" by (simp add: set_supersetKeys)
  with t'(1) have "t' \<in> set (concat (map (lookupSet tp) (supersetKeys e tp cs)))" by auto
  then have "ID t' \<in> ID ` set (concat (map (lookupSet tp) (supersetKeys e tp cs)))"
    by (rule imageI)
  then show ?thesis by (simp add: t'(2))
qed

lemma dedupSet_Ball:
  "dedupSet tp cs ts = filter (\<lambda>t. \<forall>c\<in>set cs. ID t \<notin> ID ` set (lookupSet tp c)) ts"
  unfolding dedupSet_conv by (rule filter_cong) auto

lemma ex_resolve:
  "handleConflicts exEnv pool1 [txB, txC] [11] exTxnFn = (Inr [txA, txB, txC], pool2)"
  by (simp add: ex_defs pool_defs handleConflicts.simps fun_upd_twist)

subsection \<open>Confirmed transactions are filtered first\<close>

text \<open>
  Claim C6. For a non-empty candidate, \<open>acceptTransactionSet\<close> first drops every
  transaction whose id \<open>transactionConfirmed\<close> reports. If none is left it returns
  \<open>ErrDuplicateTransactionSet\<close> and the pool as it was. Otherwise the call does what the
  call on the unconfirmed transactions alone (in their order in the candidate) does, and
  when no object of theirs is known to the pool, a success returns exactly that list.
\<close>

theorem confirmed_filtering:
  assumes "ts \<noteq> []"
  shows "(filter (\<lambda>txn. \<not> transactionConfirmed e (ID txn)) ts = [] \<longrightarrow>
            acceptTransactionSet e tp ts txnFn = (Inl ErrDuplicateTransactionSet, tp)) \<and>
         (filter (\<lambda>txn. \<not> transactionConfirmed e (ID txn)) ts \<noteq> [] \<longrightarrow>
            acceptTransactionSet e tp ts txnFn =
            acceptTransactionSet e tp (filter (\<lambda>txn. \<not> transactionConfirmed e (ID txn)) ts) txnFn) \<and>
         (findConflicts tp (relatedObjectIDs e (filter (\<lambda>txn. \<not> transactionConfirmed e (ID txn)) ts)) = [] \<longrightarrow>
            (\<forall>s. fst (acceptTransactionSet e tp ts txnFn) = Inr s \<longrightarrow>
                 s = filter (\<lambda>txn. \<not> transactionConfirmed e (ID txn)) ts))"
  using assms
  by (auto simp: acceptTransactionSet_def Let_def split: sum.splits option.splits if_splits)

theorem confirmed_filtering_witness:
  "[txD, txA, txD] \<noteq> [] \<and>
   filter (\<lambda>txn. \<not> transactionConfirmed exEnv (ID txn)) [txD, txA, txD] = [txA] \<and>
   acceptTransactionSet exEnv (newPool 0) [txD, txA, txD] exTxnFn = (Inr [txA], pool1) \<and>
   acceptTransactionSet exEnv (newPool 0) [txD, txD] exTxnFn =
     (Inl ErrDuplicateTransactionSet, newPool 0)"
proof -
  have f1: "filter (\<lambda>txn. \<not> transactionConfirmed exEnv (ID txn)) [txD, txA, txD] = [txA]"
    by (simp add: ex_defs)
  have f2: "filter (\<lambda>txn. \<not> transactionConfirmed exEnv (ID txn)) [txD, txD] = []"
    by (simp add: ex_defs)
  have n1: "[txD, txA, txD] \<noteq> []" and n2: "[txD, txD] \<noteq> []" by simp_all
  show ?thesis
    using confirmed_filtering[OF n1, of exEnv "newPool 0" exTxnFn]
          confirmed_filtering[OF n2, of exEnv "newPool 0" exTxnFn] f1 f2 ex_step1
    by simp
qed

subsection \<open>The fee gate\<close>

lemma accept_gate_low:
  assumes "checkTransactionSetComposition e tp s = Inr setSize"
    and "Currency_Mul64 (requiredFeesToExtendTpool e tp) setSize = Some requiredFees"
    and "s = filter (\<lambda>txn. \<not> transactionConfirmed e (ID txn)) ts" and "s \<noteq> []"
    and "sum_list (concat (map MinerFees s)) < requiredFees"
  shows "acceptTransactionSet e tp ts txnFn = (Inl errLowMinerFees, tp)"
proof -
  have ts: "ts \<noteq> []" using assms(3,4) by auto
  have rf: "requiredFees \<le> maxCurrency"
    using assms(2) by (auto simp: Currency_Mul64_def split: if_splits)
  have "setFees s = Some (sum_list (concat (map MinerFees s)))"
    using assms(5) rf by (simp add: setFees_sum)
  with assms ts show ?thesis
    unfolding acceptTransactionSet_def Let_def assms(3)[symmetric] by simp
qed

lemma accept_gate_overflow:
  assumes "checkTransactionSetComposition e tp s = Inr setSize"
    and "Currency_Mul64 (requiredFeesToExtendTpool e tp) setSize = Some requiredFees"
    and "s = filter (\<lambda>txn. \<not> transactionConfirmed e (ID txn)) ts" and "s \<noteq> []"
    and "maxCurrency < sum_list (concat (map MinerFees s))"
  shows "acceptTransactionSet e tp ts txnFn = (Inl CurrencyOverflow, tp)"
proof -
  have ts: "ts \<noteq> []" using assms(3,4) by auto
  have "setFees s = None" using assms(5) by (simp add: setFees_sum)
  with assms ts show ?thesis
    unfolding acceptTransactionSet_def Let_def assms(3)[symmetric] by simp
qed

lemma accept_gate_pass:
  assumes "checkTransactionSetComposition e tp s = Inr setSize"
    and "Currency_Mul64 (requiredFeesToExtendTpool e tp) setSize = Some requiredFees"
    and "s = filter (\<lambda>txn. \<not> transactionConfirmed e (ID txn)) ts" and "s \<noteq> []"
    and "requiredFees \<le> sum_list (concat (map MinerFees s))"
    and "sum_list (concat (map MinerFees s)) \<le> maxCurrency"
  shows "acceptTransactionSet e tp ts txnFn =
           (if findConflicts tp (relatedObjectIDs e s) \<noteq> []
            then handleConflicts e tp s (findConflicts tp (relatedObjectIDs e s)) txnFn
            else case txnFn s of
                   Inl err \<Rightarrow>
                     (Inl (ConsensusConflict (''provided transaction set is invalid: '' @ err)), tp)
                 | Inr cc \<Rightarrow> (Inr s, addSet e s (relatedObjectIDs e s) cc tp))"
proof -
  have ts: "ts \<noteq> []" using assms(3,4) by auto
  have "setFees s = Some (sum_list (concat (map MinerFees s)))"
    using assms(6) by (simp add: setFees_sum)
  with assms ts show ?thesis
    unfolding acceptTransactionSet_def Let_def assms(3)[symmetric] by simp
qed

lemma merge_gate:
  assumes "checkTransactionSetComposition e tp (mergeSuperset e tp conflicts dedup) = Inr setSize"
    and "Currency_Mul64 (requiredFeesToExtendTpool e tp) setSize = Some requiredFees"
  shows "fst (mergeConflicts e tp dedup conflicts txnFn) = Inl errLowMinerFees \<longleftrightarrow>
         sum_list (concat (map MinerFees (mergeSuperset e tp conflicts dedup))) < requiredFees"
proof -
  have rf: "requiredFees \<le> maxCurrency"
    using assms(2) by (auto simp: Currency_Mul64_def split: if_splits)
  show ?thesis
    using assms rf
    by (auto simp: mergeConflicts_def Let_def setFees_sum split: sum.splits)
qed

text \<open>
  Claim C8. Let a set \<open>s\<close> pass \<open>checkTransactionSetComposition\<close> with size
  \<open>setSize\<close>, and let \<open>requiredFees\<close> be what \<open>Mul64\<close> returns for the required fee per
  byte and \<open>setSize\<close> (when that product exceeds 128 bits \<open>Mul64\<close> panics and nothing is
  compared). If \<open>s\<close> is the candidate (after filtering) and the sum of all miner fees of
  all its transactions is strictly below \<open>requiredFees\<close>, the call returns
  \<open>errLowMinerFees\<close>; when the candidate has no conflict, the call returns
  \<open>errLowMinerFees\<close> exactly in that case, so not when the two are equal, and not when
  the sum exceeds 128 bits: then the fee loop panics. If \<open>s\<close> is the merged superset, the
  merge returns \<open>errLowMinerFees\<close> exactly when the sum of the fees of the superset is
  strictly below \<open>requiredFees\<close>; and so does \<open>acceptTransactionSet\<close> itself, for a
  candidate that has conflicts, has passed its own fee check and is not emptied by the
  deduplication, \<open>s\<close> being the superset that the resolver builds for it.
\<close>

theorem fee_gate:
  assumes "checkTransactionSetComposition e tp s = Inr setSize"
    and "Currency_Mul64 (requiredFeesToExtendTpool e tp) setSize = Some requiredFees"
  shows "(s = filter (\<lambda>txn. \<not> transactionConfirmed e (ID txn)) ts \<and> s \<noteq> [] \<and>
          sum_list (concat (map MinerFees s)) < requiredFees \<longrightarrow>
            acceptTransactionSet e tp ts txnFn = (Inl errLowMinerFees, tp)) \<and>
         (s = filter (\<lambda>txn. \<not> transactionConfirmed e (ID txn)) ts \<and> s \<noteq> [] \<and>
          findConflicts tp (relatedObjectIDs e s) = [] \<longrightarrow>
            (fst (acceptTransactionSet e tp ts txnFn) = Inl errLowMinerFees \<longleftrightarrow>
             sum_list (concat (map MinerFees s)) < requiredFees)) \<and>
         (s = filter (\<lambda>txn. \<not> transactionConfirmed e (ID txn)) ts \<and> s \<noteq> [] \<and>
          maxCurrency < sum_list (concat (map MinerFees s)) \<longrightarrow>
            acceptTransactionSet e tp ts txnFn = (Inl CurrencyOverflow, tp)) \<and>
         (s = mergeSuperset e tp conflicts dedup \<longrightarrow>
            (fst (mergeConflicts e tp dedup conflicts txnFn) = Inl errLowMinerFees \<longleftrightarrow>
             sum_list (concat (map MinerFees s)) < requiredFees)) \<and>
         (\<forall>c candSize candFees.
            c = filter (\<lambda>txn. \<not> transactionConfirmed e (ID txn)) ts \<and> c \<noteq> [] \<and>
            checkTransactionSetComposition e tp c = Inr candSize \<and>
            Currency_Mul64 (requiredFeesToExtendTpool e tp) candSize = Some candFees \<and>
            candFees \<le> sum_list (concat (map MinerFees c)) \<and>
            sum_list (concat (map MinerFees c)) \<le> maxCurrency \<and>
            findConflicts tp (relatedObjectIDs e c) \<noteq> [] \<and>
            dedupSet tp (findConflicts tp (relatedObjectIDs e c)) c \<noteq> [] \<and>
            s = mergeSuperset e tp
                  (mergedConflicts e tp c (findConflicts tp (relatedObjectIDs e c)))
                  (dedupSet tp (findConflicts tp (relatedObjectIDs e c)) c) \<longrightarrow>
            (fst (acceptTransactionSet e tp ts txnFn) = Inl errLowMinerFees \<longleftrightarrow>
             sum_list (concat (map MinerFees s)) < requiredFees))"
proof (intro conjI impI allI)
  assume "s = filter (\<lambda>txn. \<not> transactionConfirmed e (ID txn)) ts \<and> s \<noteq> [] \<and>
          sum_list (concat (map MinerFees s)) < requiredFees"
  then show "acceptTransactionSet e tp ts txnFn = (Inl errLowMinerFees, tp)"
    using accept_gate_low[OF assms] by blast
next
  assume a: "s = filter (\<lambda>txn. \<not> transactionConfirmed e (ID txn)) ts \<and> s \<noteq> [] \<and>
          findConflicts tp (relatedObjectIDs e s) = []"
  then have s1: "s = filter (\<lambda>txn. \<not> transactionConfirmed e (ID txn)) ts"
    and s2: "s \<noteq> []" and s3: "findConflicts tp (relatedObjectIDs e s) = []" by blast+
  show "fst (acceptTransactionSet e tp ts txnFn) = Inl errLowMinerFees \<longleftrightarrow>
        sum_list (concat (map MinerFees s)) < requiredFees"
  proof (cases "sum_list (concat (map MinerFees s)) < requiredFees")
    case True
    with accept_gate_low[OF assms s1 s2, of txnFn] show ?thesis by simp
  next
    case False
    show ?thesis
    proof (cases "sum_list (concat (map MinerFees s)) \<le> maxCurrency")
      case True
      with False have "requiredFees \<le> sum_list (concat (map MinerFees s))" by simp
      from accept_gate_pass[OF assms s1 s2 this True, of txnFn] s3 False show ?thesis
        by (auto split: sum.splits)
    next
      case over: False
      then have "maxCurrency < sum_list (concat (map MinerFees s))" by simp
      from accept_gate_overflow[OF assms s1 s2 this, of txnFn] False show ?thesis by simp
    qed
  qed
next
  assume "s = filter (\<lambda>txn. \<not> transactionConfirmed e (ID txn)) ts \<and> s \<noteq> [] \<and>
          maxCurrency < sum_list (concat (map MinerFees s))"
  then show "acceptTransactionSet e tp ts txnFn = (Inl CurrencyOverflow, tp)"
    using accept_gate_overflow[OF assms] by blast
next
  assume "s = mergeSuperset e tp conflicts dedup"
  then show "fst (mergeConflicts e tp dedup conflicts txnFn) = Inl errLowMinerFees \<longleftrightarrow>
             sum_list (concat (map MinerFees s)) < requiredFees"
    using merge_gate[of e tp conflicts dedup setSize requiredFees txnFn] assms by simp
next
  fix c candSize candFees
  let ?cs = "findConflicts tp (relatedObjectIDs e c)"
  assume a: "c = filter (\<lambda>txn. \<not> transactionConfirmed e (ID txn)) ts \<and> c \<noteq> [] \<and>
            checkTransactionSetComposition e tp c = Inr candSize \<and>
            Currency_Mul64 (requiredFeesToExtendTpool e tp) candSize = Some candFees \<and>
            candFees \<le> sum_list (concat (map MinerFees c)) \<and>
            sum_list (concat (map MinerFees c)) \<le> maxCurrency \<and>
            ?cs \<noteq> [] \<and> dedupSet tp ?cs c \<noteq> [] \<and>
            s = mergeSuperset e tp (mergedConflicts e tp c ?cs) (dedupSet tp ?cs c)"
  then have c1: "c = filter (\<lambda>txn. \<not> transactionConfirmed e (ID txn)) ts"
    and c2: "c \<noteq> []"
    and c3: "checkTransactionSetComposition e tp c = Inr candSize"
    and c4: "Currency_Mul64 (requiredFeesToExtendTpool e tp) candSize = Some candFees"
    and c5: "candFees \<le> sum_list (concat (map MinerFees c))"
    and c6: "sum_list (concat (map MinerFees c)) \<le> maxCurrency"
    and c7: "?cs \<noteq> []" and c8: "dedupSet tp ?cs c \<noteq> []"
    and c9: "s = mergeSuperset e tp (mergedConflicts e tp c ?cs) (dedupSet tp ?cs c)"
    by blast+
  have "acceptTransactionSet e tp ts txnFn = handleConflicts e tp c ?cs txnFn"
    using accept_gate_pass[OF c3 c4 c1 c2 c5 c6, of txnFn] c7 by simp
  also have "\<dots> = mergeConflicts e tp (dedupSet tp ?cs c) (mergedConflicts e tp c ?cs) txnFn"
    by (rule handleConflicts_resolves[OF subset_refl c8])
  finally have "acceptTransactionSet e tp ts txnFn =
                  mergeConflicts e tp (dedupSet tp ?cs c) (mergedConflicts e tp c ?cs) txnFn" .
  moreover have "fst (mergeConflicts e tp (dedupSet tp ?cs c) (mergedConflicts e tp c ?cs) txnFn)
                   = Inl errLowMinerFees \<longleftrightarrow>
                 sum_list (concat (map MinerFees s)) < requiredFees"
    using merge_gate[of e tp "mergedConflicts e tp c ?cs" "dedupSet tp ?cs c" setSize
                       requiredFees txnFn] assms c9 by simp
  ultimately show "fst (acceptTransactionSet e tp ts txnFn) = Inl errLowMinerFees \<longleftrightarrow>
                   sum_list (concat (map MinerFees s)) < requiredFees" by simp
qed

theorem fee_gate_witness:
  "checkTransactionSetComposition exEnv pool2 [txB, txC] = Inr 10 \<and>
   Currency_Mul64 (requiredFeesToExtendTpool exEnv pool2) 10 = Some 110 \<and>
   sum_list (concat (map MinerFees [txB, txC])) < 110 \<and>
   acceptTransactionSet exEnv pool2 [txB, txC] exTxnFn = (Inl errLowMinerFees, pool2) \<and>
   checkTransactionSetComposition exEnv pool2 [txE] = Inr 9 \<and>
   Currency_Mul64 (requiredFeesToExtendTpool exEnv pool2) 9 = Some 99 \<and>
   sum_list (concat (map MinerFees [txE])) = 99 \<and>
   fst (acceptTransactionSet exEnv pool2 [txE] exTxnFn) \<noteq> Inl errLowMinerFees \<and>
   checkTransactionSetComposition exEnv pool2 [txF] = Inr 9 \<and>
   maxCurrency < sum_list (concat (map MinerFees [txF])) \<and>
   acceptTransactionSet exEnv pool2 [txF] exTxnFn = (Inl CurrencyOverflow, pool2) \<and>
   checkTransactionSetComposition exEnv pool1 [txA, txB, txC] = Inr 11 \<and>
   Currency_Mul64 (requiredFeesToExtendTpool exEnv pool1) 11 = Some 0 \<and>
   [txA, txB, txC] =
     mergeSuperset exEnv pool1
       (mergedConflicts exEnv pool1 [txB, txC]
          (findConflicts pool1 (relatedObjectIDs exEnv [txB, txC])))
       (dedupSet pool1 (findConflicts pool1 (relatedObjectIDs exEnv [txB, txC])) [txB, txC]) \<and>
   fst (acceptTransactionSet exEnv pool1 [txB, txC] exTxnFn) \<noteq> Inl errLowMinerFees"
proof -
  have h1: "checkTransactionSetComposition exEnv pool2 [txB, txC] = Inr 10"
    by (simp add: ex_defs pool_defs)
  have m1: "Currency_Mul64 (requiredFeesToExtendTpool exEnv pool2) 10 = Some 110"
    by (simp add: ex_defs pool_defs)
  have f1: "filter (\<lambda>txn. \<not> transactionConfirmed exEnv (ID txn)) [txB, txC] = [txB, txC]"
    by (simp add: ex_defs)
  have l1: "sum_list (concat (map MinerFees [txB, txC])) < 110"
    by (simp add: ex_defs)
  have h2: "checkTransactionSetComposition exEnv pool2 [txE] = Inr 9"
    by (simp add: ex_defs pool_defs)
  have m2: "Currency_Mul64 (requiredFeesToExtendTpool exEnv pool2) 9 = Some 99"
    by (simp add: ex_defs pool_defs)
  have f2: "filter (\<lambda>txn. \<not> transactionConfirmed exEnv (ID txn)) [txE] = [txE]"
    by (simp add: ex_defs)
  have l2: "sum_list (concat (map MinerFees [txE])) = 99"
    by (simp add: ex_defs)
  have c2: "findConflicts pool2 (relatedObjectIDs exEnv [txE]) = []"
    by (simp add: ex_defs pool_defs)
  have h3: "checkTransactionSetComposition exEnv pool2 [txF] = Inr 9"
    by (simp add: ex_defs pool_defs)
  have f3: "filter (\<lambda>txn. \<not> transactionConfirmed exEnv (ID txn)) [txF] = [txF]"
    by (simp add: ex_defs)
  have l3: "maxCurrency < sum_list (concat (map MinerFees [txF]))"
    by (simp add: ex_defs maxCurrency_def)
  have h4: "checkTransactionSetComposition exEnv pool1 [txA, txB, txC] = Inr 11"
    by (simp add: ex_defs pool_defs)
  have m4: "Currency_Mul64 (requiredFeesToExtendTpool exEnv pool1) 11 = Some 0"
    by (simp add: ex_defs pool_defs)
  have k4: "checkTransactionSetComposition exEnv pool1 [txB, txC] = Inr 10"
    by (simp add: ex_defs pool_defs)
  have n4: "Currency_Mul64 (requiredFeesToExtendTpool exEnv pool1) 10 = Some 0"
    by (simp add: ex_defs pool_defs)
  have l4: "sum_list (concat (map MinerFees [txB, txC])) = 0"
    "sum_list (concat (map MinerFees [txA, txB, txC])) = 0"
    by (simp_all add: ex_defs)
  have c4: "findConflicts pool1 (relatedObjectIDs exEnv [txB, txC]) = [11]"
    by (simp add: ex_defs pool_defs)
  have d4: "dedupSet pool1 [11] [txB, txC] = [txB, txC]"
    by (simp add: ex_defs pool_defs)
  have s4: "[txA, txB, txC] =
     mergeSuperset exEnv pool1
       (mergedConflicts exEnv pool1 [txB, txC]
          (findConflicts pool1 (relatedObjectIDs exEnv [txB, txC])))
       (dedupSet pool1 (findConflicts pool1 (relatedObjectIDs exEnv [txB, txC])) [txB, txC])"
    unfolding c4 by (simp add: ex_defs pool_defs mergedConflicts_def)
  from fee_gate[OF h1 m1, of "[txB, txC]" exTxnFn] f1 l1
  have a1: "acceptTransactionSet exEnv pool2 [txB, txC] exTxnFn = (Inl errLowMinerFees, pool2)"
    by simp
  from fee_gate[OF h2 m2, of "[txE]" exTxnFn] f2 l2 c2
  have a2: "fst (acceptTransactionSet exEnv pool2 [txE] exTxnFn) \<noteq> Inl errLowMinerFees"
    by simp
  from fee_gate[OF h3 m2, of "[txF]" exTxnFn] f3 l3
  have a3: "acceptTransactionSet exEnv pool2 [txF] exTxnFn = (Inl CurrencyOverflow, pool2)"
    by simp
  from fee_gate[OF h4 m4, of "[txB, txC]" exTxnFn]
  have "\<forall>c candSize candFees.
            c = filter (\<lambda>txn. \<not> transactionConfirmed exEnv (ID txn)) [txB, txC] \<and> c \<noteq> [] \<and>
            checkTransactionSetComposition exEnv pool1 c = Inr candSize \<and>
            Currency_Mul64 (requiredFeesToExtendTpool exEnv pool1) candSize = Some candFees \<and>
            candFees \<le> sum_list (concat (map MinerFees c)) \<and>
            sum_list (concat (map MinerFees c)) \<le> maxCurrency \<and>
            findConflicts pool1 (relatedObjectIDs exEnv c) \<noteq> [] \<and>
            dedupSet pool1 (findConflicts pool1 (relatedObjectIDs exEnv c)) c \<noteq> [] \<and>
            [txA, txB, txC] = mergeSuperset exEnv pool1
                  (mergedConflicts exEnv pool1 c (findConflicts pool1 (relatedObjectIDs exEnv c)))
                  (dedupSet pool1 (findConflicts pool1 (relatedObjectIDs exEnv c)) c) \<longrightarrow>
            (fst (acceptTransactionSet exEnv pool1 [txB, txC] exTxnFn) = Inl errLowMinerFees \<longleftrightarrow>
             sum_list (concat (map MinerFees [txA, txB, txC])) < 0)"
    by blast
  then have imp: "[txB, txC] = filter (\<lambda>txn. \<not> transactionConfirmed exEnv (ID txn)) [txB, txC] \<and>
            [txB, txC] \<noteq> [] \<and>
            checkTransactionSetComposition exEnv pool1 [txB, txC] = Inr 10 \<and>
            Currency_Mul64 (requiredFeesToExtendTpool exEnv pool1) 10 = Some 0 \<and>
            0 \<le> sum_list (concat (map MinerFees [txB, txC])) \<and>
            sum_list (concat (map MinerFees [txB, txC])) \<le> maxCurrency \<and>
            findConflicts pool1 (relatedObjectIDs exEnv [txB, txC]) \<noteq> [] \<and>
            dedupSet pool1 (findConflicts pool1 (relatedObjectIDs exEnv [txB, txC])) [txB, txC] \<noteq> [] \<and>
            [txA, txB, txC] = mergeSuperset exEnv pool1
                  (mergedConflicts exEnv pool1 [txB, txC]
                     (findConflicts pool1 (relatedObjectIDs exEnv [txB, txC])))
                  (dedupSet pool1 (findConflicts pool1 (relatedObjectIDs exEnv [txB, txC]))
                     [txB, txC]) \<longrightarrow>
            (fst (acceptTransactionSet exEnv pool1 [txB, txC] exTxnFn) = Inl errLowMinerFees \<longleftrightarrow>
             sum_list (concat (map MinerFees [txA, txB, txC])) < 0)"
    by blast
  have p1: "[txB, txC] = filter (\<lambda>txn. \<not> transactionConfirmed exEnv (ID txn)) [txB, txC]"
    by (simp add: ex_defs)
  have p2: "[txB, txC] \<noteq> []" by simp
  have p5: "0 \<le> sum_list (concat (map MinerFees [txB, txC]))" by simp
  have p6: "sum_list (concat (map MinerFees [txB, txC])) \<le> maxCurrency"
    unfolding l4 by simp
  have p7: "findConflicts pool1 (relatedObjectIDs exEnv [txB, txC]) \<noteq> []"
    by (simp add: c4)
  have p8: "dedupSet pool1 (findConflicts pool1 (relatedObjectIDs exEnv [txB, txC])) [txB, txC] \<noteq> []"
    by (simp add: c4 d4)
  from imp p1 p2 k4 n4 p5 p6 p7 p8 s4
  have "fst (acceptTransactionSet exEnv pool1 [txB, txC] exTxnFn) = Inl errLowMinerFees \<longleftrightarrow>
        sum_list (concat (map MinerFees [txA, txB, txC])) < 0"
    by blast
  then have a4: "fst (acceptTransactionSet exEnv pool1 [txB, txC] exTxnFn) \<noteq> Inl errLowMinerFees"
    by simp
  from h1 m1 l1 a1 h2 m2 l2 a2 h3 l3 a3 h4 m4 s4 a4 show ?thesis by blast
qed

subsection \<open>The recursion of the resolver\<close>

text \<open>
  Claim C3. Let the conflict list of \<open>handleConflicts\<close> name every set that
  \<open>knownObjects\<close> gives for an object of the candidate (the list that
  \<open>acceptTransactionSet\<close> passes). If the deduplication prunes some but not all
  transactions, the recursive call works on the remainder and on the conflicts recomputed
  for it; the remainder shares no transaction id with any recomputed conflicting set, the
  second deduplication returns the remainder unchanged, and the recursive call is the
  merge itself: the recursion is one level deep.
\<close>

theorem recursion_one_level:
  assumes "set (findConflicts tp (relatedObjectIDs e ts)) \<subseteq> set conflicts"
    and "dedupSet tp conflicts ts \<noteq> []"
    and "length (dedupSet tp conflicts ts) < length ts"
  shows "dedupSet tp (findConflicts tp (relatedObjectIDs e (dedupSet tp conflicts ts)))
           (dedupSet tp conflicts ts) = dedupSet tp conflicts ts \<and>
         ID ` set (dedupSet tp conflicts ts) \<inter>
           ID ` (\<Union>c\<in>set (findConflicts tp (relatedObjectIDs e (dedupSet tp conflicts ts))).
                   set (lookupSet tp c)) = {} \<and>
         handleConflicts e tp ts conflicts txnFn =
           mergeConflicts e tp (dedupSet tp conflicts ts)
             (findConflicts tp (relatedObjectIDs e (dedupSet tp conflicts ts))) txnFn"
proof -
  let ?d = "dedupSet tp conflicts ts"
  let ?cs = "findConflicts tp (relatedObjectIDs e ?d)"
  have sub: "set ?cs \<subseteq> set conflicts"
    using findConflicts_dedup_subset[of tp e conflicts ts] assms(1) by blast
  have idem: "dedupSet tp ?cs ?d = ?d" by (rule dedupSet_idem[OF sub])
  have disj: "ID ` set ?d \<inter> ID ` (\<Union>c\<in>set ?cs. set (lookupSet tp c)) = {}"
  proof -
    have "ID t \<notin> ID ` (\<Union>c\<in>set conflicts. set (lookupSet tp c))" if "t \<in> set ?d" for t
      using that by (simp add: dedupSet_conv)
    with sub show ?thesis by blast
  qed
  have "handleConflicts e tp ts conflicts txnFn = handleConflicts e tp ?d ?cs txnFn"
    using assms(2,3) by (simp add: handleConflicts.simps[of e tp ts])
  also have "\<dots> = mergeConflicts e tp ?d ?cs txnFn"
    using assms(2) by (simp add: handleConflicts.simps[of e tp ?d] idem)
  finally show ?thesis using idem disj by simp
qed

theorem recursion_one_level_witness:
  "set (findConflicts pool1 (relatedObjectIDs exEnv [txA, txC])) \<subseteq> set [11] \<and>
   dedupSet pool1 [11] [txA, txC] = [txC] \<and>
   dedupSet pool1 (findConflicts pool1 (relatedObjectIDs exEnv [txC])) [txC] = [txC] \<and>
   handleConflicts exEnv pool1 [txA, txC] [11] exTxnFn =
     mergeConflicts exEnv pool1 [txC] (findConflicts pool1 (relatedObjectIDs exEnv [txC])) exTxnFn"
proof -
  have h1: "set (findConflicts pool1 (relatedObjectIDs exEnv [txA, txC])) \<subseteq> set [11]"
    by (simp add: ex_defs pool_defs)
  have d: "dedupSet pool1 [11] [txA, txC] = [txC]"
    by (simp add: ex_defs pool_defs)
  have h2: "dedupSet pool1 [11] [txA, txC] \<noteq> []" by (simp add: d)
  have h3: "length (dedupSet pool1 [11] [txA, txC]) < length [txA, txC]" by (simp add: d)
  show ?thesis using recursion_one_level[OF h1 h2 h3, of exTxnFn] h1 d by simp
qed

subsection \<open>The order of the merged superset\<close>

text \<open>
  Claim C5. Let the conflict list of \<open>handleConflicts\<close> name every set that
  \<open>knownObjects\<close> gives for an object of the candidate (the list that
  \<open>acceptTransactionSet\<close> passes), and let the call succeed. The set it returns is the
  sets of \<open>supersetMap\<close>, each whole, in its own order and once, followed by the
  deduplicated remainder: the candidate's transactions, in the candidate's order, whose
  id is in none of the conflicting sets. The sets of \<open>supersetMap\<close> are exactly the values
  of \<open>conflictMap\<close> at the level that merges; they are registered, they are among the
  conflicting sets, and every pool set that \<open>knownObjects\<close> gives for an object of the
  remainder is among the conflicting sets of that level. Every transaction id of every
  such conflicting set is in the part before the remainder, and no id of the remainder
  is. So a pool transaction whose output a transaction of the remainder spends stands
  before it: with the pool set \<open>[txA]\<close> and the candidate \<open>[txB, txC]\<close>, where \<open>txC\<close>
  spends an output of \<open>txA\<close>, the superset is \<open>[txA, txB, txC]\<close>.
\<close>

theorem superset_order:
  assumes "set (findConflicts tp (relatedObjectIDs e ts)) \<subseteq> set conflicts"
    and "fst (handleConflicts e tp ts conflicts txnFn) = Inr s"
  shows "s = concat (map (lookupSet tp) (supersetKeys e tp (mergedConflicts e tp ts conflicts)))
             @ dedupSet tp conflicts ts \<and>
         dedupSet tp conflicts ts =
           filter (\<lambda>t. \<forall>c\<in>set conflicts. ID t \<notin> ID ` set (lookupSet tp c)) ts \<and>
         dedupSet tp conflicts ts \<noteq> [] \<and>
         subseq (dedupSet tp conflicts ts) ts \<and>
         distinct (supersetKeys e tp (mergedConflicts e tp ts conflicts)) \<and>
         set (supersetKeys e tp (mergedConflicts e tp ts conflicts)) =
           ran (buildConflictMap tp (mergedConflicts e tp ts conflicts)) \<and>
         set (supersetKeys e tp (mergedConflicts e tp ts conflicts))
           \<subseteq> set (mergedConflicts e tp ts conflicts) \<and>
         set (mergedConflicts e tp ts conflicts) \<subseteq> set conflicts \<and>
         set (findConflicts tp (relatedObjectIDs e (dedupSet tp conflicts ts)))
           \<subseteq> set (mergedConflicts e tp ts conflicts) \<and>
         (\<forall>k\<in>set (supersetKeys e tp (mergedConflicts e tp ts conflicts)).
            transactionSets tp k \<noteq> None) \<and>
         (\<forall>c\<in>set (mergedConflicts e tp ts conflicts). \<forall>t\<in>set (lookupSet tp c).
            ID t \<in> ID ` set (concat (map (lookupSet tp)
                       (supersetKeys e tp (mergedConflicts e tp ts conflicts))))) \<and>
         (\<forall>t\<in>set (dedupSet tp conflicts ts).
            \<forall>k\<in>set (supersetKeys e tp (mergedConflicts e tp ts conflicts)).
              ID t \<notin> ID ` set (lookupSet tp k))"
proof -
  let ?d = "dedupSet tp conflicts ts"
  let ?cs = "mergedConflicts e tp ts conflicts"
  let ?ks = "supersetKeys e tp ?cs"
  have ne: "?d \<noteq> []"
  proof
    assume "?d = []"
    then have "handleConflicts e tp ts conflicts txnFn = (Inl ErrDuplicateTransactionSet, tp)"
      by (subst handleConflicts_unfold) simp
    with assms(2) show False by simp
  qed
  have "handleConflicts e tp ts conflicts txnFn = mergeConflicts e tp ?d ?cs txnFn"
    by (rule handleConflicts_resolves[OF assms(1) ne])
  with assms(2) have "fst (mergeConflicts e tp ?d ?cs txnFn) = Inr s" by simp
  then have s: "s = concat (map (lookupSet tp) ?ks) @ ?d"
    using mergeConflicts_result[of e tp ?d ?cs txnFn s] by (simp add: mergeSuperset_def)
  have sub: "set ?cs \<subseteq> set conflicts" by (rule mergedConflicts_subset[OF assms(1)])
  have ks: "set ?ks \<subseteq> set ?cs" by (rule supersetKeys_subset)
  have fresh: "\<forall>t\<in>set ?d. \<forall>k\<in>set ?ks. ID t \<notin> ID ` set (lookupSet tp k)"
  proof (intro ballI)
    fix t k assume t: "t \<in> set ?d" and k: "k \<in> set ?ks"
    from k ks sub have "k \<in> set conflicts" by blast
    moreover from t have "\<forall>c\<in>set conflicts. ID t \<notin> ID ` set (lookupSet tp c)"
      by (simp add: dedupSet_Ball)
    ultimately show "ID t \<notin> ID ` set (lookupSet tp k)" by blast
  qed
  have reg: "\<forall>k\<in>set ?ks. transactionSets tp k \<noteq> None"
    using supersetKeys_registered by blast
  have cov: "\<forall>c\<in>set ?cs. \<forall>t\<in>set (lookupSet tp c).
               ID t \<in> ID ` set (concat (map (lookupSet tp) ?ks))"
    using conflict_ids_merged by blast
  show ?thesis
    apply (intro conjI)
    apply (rule s)
    apply (rule dedupSet_Ball)
    apply (rule ne)
    apply (rule subseq_dedupSet)
    apply (rule distinct_supersetKeys)
    apply (rule set_supersetKeys)
    apply (rule ks)
    apply (rule sub)
    apply (rule mergedConflicts_covers[OF assms(1)])
    apply (rule reg)
    apply (rule cov)
    apply (rule fresh)
    done
qed

theorem superset_order_witness:
  "set (findConflicts pool1 (relatedObjectIDs exEnv [txB, txC])) \<subseteq> set [11] \<and>
   fst (handleConflicts exEnv pool1 [txB, txC] [11] exTxnFn) = Inr [txA, txB, txC] \<and>
   supersetKeys exEnv pool1 (mergedConflicts exEnv pool1 [txB, txC] [11]) = [11] \<and>
   lookupSet pool1 11 = [txA] \<and>
   dedupSet pool1 [11] [txB, txC] = [txB, txC] \<and>
   [txA, txB, txC] =
     concat (map (lookupSet pool1)
               (supersetKeys exEnv pool1 (mergedConflicts exEnv pool1 [txB, txC] [11])))
     @ dedupSet pool1 [11] [txB, txC]"
proof -
  have h1: "set (findConflicts pool1 (relatedObjectIDs exEnv [txB, txC])) \<subseteq> set [11]"
    by (simp add: ex_defs pool_defs)
  have h2: "fst (handleConflicts exEnv pool1 [txB, txC] [11] exTxnFn) = Inr [txA, txB, txC]"
    by (simp add: ex_resolve)
  have k: "supersetKeys exEnv pool1 (mergedConflicts exEnv pool1 [txB, txC] [11]) = [11]"
    by (simp add: ex_defs pool_defs mergedConflicts_def)
  have l: "lookupSet pool1 11 = [txA]" by (simp add: ex_defs pool_defs)
  have d: "dedupSet pool1 [11] [txB, txC] = [txB, txC]" by (simp add: ex_defs pool_defs)
  from superset_order[OF h1 h2] have
    "[txA, txB, txC] =
       concat (map (lookupSet pool1)
                 (supersetKeys exEnv pool1 (mergedConflicts exEnv pool1 [txB, txC] [11])))
       @ dedupSet pool1 [11] [txB, txC]" by blast
  with h1 h2 k l d show ?thesis by blast
qed

subsection \<open>Eviction, installation and the shape of a success\<close>

lemma evictConflicts_Nil: "evictConflicts e [] tp = tp"
  by (simp add: evictConflicts_def)

lemma evictConflicts_Cons: "evictConflicts e (k # ks) tp = evictConflicts e ks (evictSet e k tp)"
  by (simp add: evictConflicts_def)

lemma evictConflicts_sets:
  "transactionSets (evictConflicts e ks tp) = (\<lambda>k. if k \<in> set ks then None else transactionSets tp k)"
  by (induction ks arbitrary: tp) (auto simp: evictConflicts_Nil evictConflicts_Cons evictSet_def)



lemma evictConflicts_size:
  "distinct ks \<Longrightarrow>
   transactionListSize (evictConflicts e ks tp) =
     transactionListSize tp - sum_list (map (\<lambda>c. EncodedLen e (lookupSet tp c)) ks)"
proof (induction ks arbitrary: tp)
  case Nil
  then show ?case by (simp add: evictConflicts_Nil)
next
  case (Cons k ks)
  have same: "lookupSet (evictSet e k tp) c = lookupSet tp c" if "c \<in> set ks" for c
    using that Cons.prems by (auto simp: lookupSet_def evictSet_def)
  have m: "map (\<lambda>c. EncodedLen e (lookupSet (evictSet e k tp) c)) ks
          = map (\<lambda>c. EncodedLen e (lookupSet tp c)) ks"
    by (rule map_cong) (simp_all add: same)
  have "transactionListSize (evictConflicts e (k # ks) tp)
          = transactionListSize (evictSet e k tp)
            - sum_list (map (\<lambda>c. EncodedLen e (lookupSet (evictSet e k tp) c)) ks)"
    using Cons.IH[of "evictSet e k tp"] Cons.prems by (simp add: evictConflicts_Cons)
  also have "transactionListSize (evictSet e k tp)
          = transactionListSize tp - EncodedLen e (lookupSet tp k)"
    by (simp add: evictSet_def)
  finally show ?case by (simp add: m)
qed

lemma mergeConflicts_shape:
  assumes "fst (mergeConflicts e tp d cs f) = Inr s"
  shows "\<exists>cc. f s = Inr cc \<and> s = mergeSuperset e tp cs d \<and>
              transactionSets tp (setIDof e s) = None \<and>
              snd (mergeConflicts e tp d cs f) =
                addSet e s (diffObjects cc) cc (evictConflicts e (supersetKeys e tp cs) tp)"
  using assms
  by (auto simp: mergeConflicts_def Let_def checkTransactionSetComposition_def
           split: sum.splits option.splits if_splits)

lemma handleConflicts_shape:
  assumes "fst (handleConflicts e tp ts cs f) = Inr s"
  shows "\<exists>cc cs'. f s = Inr cc \<and> transactionSets tp (setIDof e s) = None \<and>
              snd (handleConflicts e tp ts cs f) =
                addSet e s (diffObjects cc) cc (evictConflicts e (supersetKeys e tp cs') tp)"
  using assms
proof (induction e tp ts cs f rule: handleConflicts.induct)
  case (1 e tp ts conflicts txnFn)
  let ?d = "dedupSet tp conflicts ts"
  let ?cs = "findConflicts tp (relatedObjectIDs e ?d)"
  show ?case
  proof (cases "?d = []")
    case True
    have "handleConflicts e tp ts conflicts txnFn = (Inl ErrDuplicateTransactionSet, tp)"
      by (subst handleConflicts_unfold) (simp add: True)
    with "1.prems" show ?thesis by simp
  next
    case ne: False
    show ?thesis
    proof (cases "length ?d < length ts")
      case True
      have eq: "handleConflicts e tp ts conflicts txnFn = handleConflicts e tp ?d ?cs txnFn"
        by (subst handleConflicts_unfold) (simp add: True ne)
      with "1.prems" have p: "fst (handleConflicts e tp ?d ?cs txnFn) = Inr s" by simp
      have ne': "length ?d \<noteq> 0" using ne by simp
      from "1.IH"[OF ne' True p] show ?thesis by (simp add: eq)
    next
      case False
      have eq: "handleConflicts e tp ts conflicts txnFn = mergeConflicts e tp ?d conflicts txnFn"
        by (subst handleConflicts_unfold) (simp add: False ne)
      with "1.prems" have "fst (mergeConflicts e tp ?d conflicts txnFn) = Inr s" by simp
      from mergeConflicts_shape[OF this] show ?thesis unfolding eq by blast
    qed
  qed
qed

lemma accept_shape:
  assumes "fst (acceptTransactionSet e tp ts f) = Inr s"
  shows "\<exists>cc ks. f s = Inr cc \<and> distinct ks \<and> set ks \<subseteq> dom (transactionSets tp) \<and>
           transactionSets tp (setIDof e s) = None \<and>
           (findConflicts tp (relatedObjectIDs e
               (filter (\<lambda>txn. \<not> transactionConfirmed e (ID txn)) ts)) = [] \<longrightarrow>
              ks = [] \<and> s = filter (\<lambda>txn. \<not> transactionConfirmed e (ID txn)) ts) \<and>
           snd (acceptTransactionSet e tp ts f) =
             addSet e s
               (if findConflicts tp (relatedObjectIDs e
                     (filter (\<lambda>txn. \<not> transactionConfirmed e (ID txn)) ts)) = []
                then relatedObjectIDs e s else diffObjects cc)
               cc (evictConflicts e ks tp)"
proof -
  let ?ts = "filter (\<lambda>txn. \<not> transactionConfirmed e (ID txn)) ts"
  let ?cs = "findConflicts tp (relatedObjectIDs e ?ts)"
  show ?thesis
  proof (cases "?cs = []")
    case True
    with assms obtain cc where
      "f s = Inr cc" "s = ?ts" "transactionSets tp (setIDof e s) = None"
      "snd (acceptTransactionSet e tp ts f) = addSet e s (relatedObjectIDs e s) cc tp"
      by (auto simp: acceptTransactionSet_def Let_def checkTransactionSetComposition_def
               split: sum.splits option.splits if_splits)
    with True show ?thesis
      by (intro exI[of _ cc] exI[of _ "[]"]) (simp add: evictConflicts_Nil)
  next
    case False
    with assms have eq: "acceptTransactionSet e tp ts f = handleConflicts e tp ?ts ?cs f"
      by (auto simp: acceptTransactionSet_def Let_def split: sum.splits option.splits if_splits)
    with assms have "fst (handleConflicts e tp ?ts ?cs f) = Inr s" by simp
    from handleConflicts_shape[OF this] obtain cc cs' where
      h: "f s = Inr cc" "transactionSets tp (setIDof e s) = None"
         "snd (handleConflicts e tp ?ts ?cs f) =
            addSet e s (diffObjects cc) cc (evictConflicts e (supersetKeys e tp cs') tp)"
      by blast
    have "set (supersetKeys e tp cs') \<subseteq> dom (transactionSets tp)"
      using supersetKeys_registered by blast
    with h False eq distinct_supersetKeys[of e tp cs'] show ?thesis
      by (intro exI[of _ cc] exI[of _ "supersetKeys e tp cs'"]) simp
  qed
qed

subsection \<open>The size invariant\<close>

lemma EncodedLen_cong:
  "WritePrefix e' = WritePrefix e \<Longrightarrow> encodeTxn e' = encodeTxn e \<Longrightarrow> EncodedLen e' = EncodedLen e"
  by (rule ext) (simp add: EncodedLen_def EncodeTo_def)

lemma poolBytes_cong:
  "EncodedLen e' = EncodedLen e \<Longrightarrow> poolBytes e' tp = poolBytes e tp"
  by (simp add: poolBytes_def)

lemma sizeInv_newPool: "sizeInv e (newPool h)"
  by (simp add: sizeInv_def newPool_def poolBytes_def)

lemma sizeInv_evict:
  assumes "sizeInv e tp" "distinct ks" "set ks \<subseteq> dom (transactionSets tp)"
  shows "sizeInv e (evictConflicts e ks tp)"
proof -
  let ?tp' = "evictConflicts e ks tp"
  let ?D = "dom (transactionSets tp)"
  have fin: "finite ?D" using assms(1) by (simp add: sizeInv_def)
  have dom': "dom (transactionSets ?tp') = ?D - set ks"
    by (auto simp: evictConflicts_sets split: if_splits)
  have same: "lookupSet ?tp' k = lookupSet tp k" if "k \<in> ?D - set ks" for k
    using that by (simp add: lookupSet_def evictConflicts_sets)
  have "poolBytes e ?tp' = (\<Sum>k\<in>?D - set ks. EncodedLen e (lookupSet tp k))"
    unfolding poolBytes_def dom' by (rule sum.cong) (simp_all add: same)
  also have "\<dots> = (\<Sum>k\<in>?D. EncodedLen e (lookupSet tp k))
                   - (\<Sum>k\<in>set ks. EncodedLen e (lookupSet tp k))"
    using fin assms(3) by (simp add: sum_diff)
  also have "(\<Sum>k\<in>set ks. EncodedLen e (lookupSet tp k))
               = sum_list (map (\<lambda>c. EncodedLen e (lookupSet tp c)) ks)"
    using assms(2) by (simp add: sum_list_distinct_conv_sum_set)
  finally have "poolBytes e ?tp' = transactionListSize ?tp'"
    using assms(1,2) by (simp add: evictConflicts_size sizeInv_def poolBytes_def)
  with fin dom' show ?thesis by (simp add: sizeInv_def)
qed

lemma sizeInv_addSet:
  assumes "sizeInv e tp" "transactionSets tp (setIDof e s) = None"
  shows "sizeInv e (addSet e s oids cc tp)"
proof -
  let ?k = "setIDof e s"
  let ?tp' = "addSet e s oids cc tp"
  let ?D = "dom (transactionSets tp)"
  have fin: "finite ?D" using assms(1) by (simp add: sizeInv_def)
  have notin: "?k \<notin> ?D" using assms(2) by (simp add: domIff)
  have dom': "dom (transactionSets ?tp') = insert ?k ?D"
    by (simp add: addSet_def Let_def)
  have new: "lookupSet ?tp' ?k = s" by (simp add: lookupSet_def addSet_def Let_def)
  have same: "lookupSet ?tp' k = lookupSet tp k" if "k \<in> ?D" for k
    using that notin by (auto simp: lookupSet_def addSet_def Let_def)
  have "poolBytes e ?tp' = EncodedLen e s + (\<Sum>k\<in>?D. EncodedLen e (lookupSet ?tp' k))"
    unfolding poolBytes_def dom' using fin notin by (simp add: new)
  also have "(\<Sum>k\<in>?D. EncodedLen e (lookupSet ?tp' k)) = (\<Sum>k\<in>?D. EncodedLen e (lookupSet tp k))"
    by (rule sum.cong) (simp_all add: same)
  finally have "poolBytes e ?tp' = transactionListSize ?tp'"
    using assms(1) by (simp add: sizeInv_def poolBytes_def addSet_def Let_def)
  with fin dom' show ?thesis by (simp add: sizeInv_def)
qed

lemma sizeInv_accept:
  assumes "sizeInv e tp" "fst (acceptTransactionSet e tp ts f) = Inr s"
  shows "sizeInv e (snd (acceptTransactionSet e tp ts f))"
proof -
  from accept_shape[OF assms(2)] obtain cc ks oids where
    h: "distinct ks" "set ks \<subseteq> dom (transactionSets tp)"
       "transactionSets tp (setIDof e s) = None"
       "snd (acceptTransactionSet e tp ts f) = addSet e s oids cc (evictConflicts e ks tp)"
    by blast
  have "sizeInv e (evictConflicts e ks tp)" by (rule sizeInv_evict[OF assms(1) h(1,2)])
  moreover have "transactionSets (evictConflicts e ks tp) (setIDof e s) = None"
    using h(3) by (simp add: evictConflicts_sets)
  ultimately show ?thesis unfolding h(4) by (rule sizeInv_addSet)
qed

lemma sizeInv_cong: "EncodedLen e' = EncodedLen e \<Longrightarrow> sizeInv e' tp = sizeInv e tp"
  by (simp add: sizeInv_def poolBytes_def)

lemma reachable_sizeInv: "reachable e tp \<Longrightarrow> sizeInv e tp"
proof (induction rule: reachable.induct)
  case (reachable_new h)
  show ?case by (rule sizeInv_newPool)
next
  case (reachable_submit tp e' ts txnFn s tp')
  have enc: "EncodedLen e' = EncodedLen e"
    by (rule EncodedLen_cong) (use reachable_submit in simp_all)
  have "sizeInv e' tp" using reachable_submit.IH by (simp add: sizeInv_cong[OF enc])
  moreover have "fst (acceptTransactionSet e' tp ts txnFn) = Inr s"
    using reachable_submit.hyps by simp
  ultimately have "sizeInv e' (snd (acceptTransactionSet e' tp ts txnFn))"
    by (rule sizeInv_accept)
  then show ?case using reachable_submit.hyps by (simp add: sizeInv_cong[OF enc])
qed

lemma mergeConflicts_size:
  assumes "fst (mergeConflicts e tp d cs f) = Inr s"
  shows "transactionListSize (snd (mergeConflicts e tp d cs f)) =
           transactionListSize tp
           - (\<Sum>c\<in>set (supersetKeys e tp cs). EncodedLen e (lookupSet tp c))
           + EncodedLen e s"
proof -
  from mergeConflicts_shape[OF assms] obtain cc where
    h: "snd (mergeConflicts e tp d cs f) =
          addSet e s (diffObjects cc) cc (evictConflicts e (supersetKeys e tp cs) tp)" by blast
  show ?thesis
    unfolding h
    by (simp add: addSet_def Let_def evictConflicts_size distinct_supersetKeys
                  sum_list_distinct_conv_sum_set)
qed

text \<open>
  Claim C2. In every pool reached from the new pool by successful calls of
  \<open>acceptTransactionSet\<close>, \<open>transactionListSize\<close> is the sum of the encoded sizes of
  the sets in \<open>transactionSets\<close>. A successful merge on such a pool subtracts the
  encoded size of each evicted set (the keys of \<open>supersetMap\<close>) and adds the encoded size
  of the superset, and the counter of the pool it leaves is again the sum over its sets.
\<close>

theorem size_invariant:
  assumes "reachable e tp"
  shows "transactionListSize tp = poolBytes e tp \<and>
         (\<forall>d cs f s. fst (mergeConflicts e tp d cs f) = Inr s \<longrightarrow>
            transactionListSize (snd (mergeConflicts e tp d cs f)) =
              transactionListSize tp
              - (\<Sum>c\<in>set (supersetKeys e tp cs). EncodedLen e (lookupSet tp c))
              + EncodedLen e s \<and>
            transactionListSize (snd (mergeConflicts e tp d cs f)) =
              poolBytes e (snd (mergeConflicts e tp d cs f)))"
proof (intro conjI allI impI)
  show "transactionListSize tp = poolBytes e tp"
    using reachable_sizeInv[OF assms] by (simp add: sizeInv_def)
next
  fix d cs f s assume a: "fst (mergeConflicts e tp d cs f) = Inr s"
  show "transactionListSize (snd (mergeConflicts e tp d cs f)) =
          transactionListSize tp
          - (\<Sum>c\<in>set (supersetKeys e tp cs). EncodedLen e (lookupSet tp c))
          + EncodedLen e s"
    by (rule mergeConflicts_size[OF a])
next
  fix d cs f s assume a: "fst (mergeConflicts e tp d cs f) = Inr s"
  from mergeConflicts_shape[OF a] obtain cc where
    h: "transactionSets tp (setIDof e s) = None"
       "snd (mergeConflicts e tp d cs f) =
          addSet e s (diffObjects cc) cc (evictConflicts e (supersetKeys e tp cs) tp)" by blast
  have "set (supersetKeys e tp cs) \<subseteq> dom (transactionSets tp)"
    using supersetKeys_registered by blast
  then have "sizeInv e (evictConflicts e (supersetKeys e tp cs) tp)"
    by (intro sizeInv_evict reachable_sizeInv[OF assms] distinct_supersetKeys)
  moreover have "transactionSets (evictConflicts e (supersetKeys e tp cs) tp) (setIDof e s) = None"
    using h(1) by (simp add: evictConflicts_sets)
  ultimately have "sizeInv e (snd (mergeConflicts e tp d cs f))"
    unfolding h(2) by (rule sizeInv_addSet)
  then show "transactionListSize (snd (mergeConflicts e tp d cs f)) =
               poolBytes e (snd (mergeConflicts e tp d cs f))"
    by (simp add: sizeInv_def)
qed

theorem size_invariant_witness:
  "reachable exEnv pool2 \<and> transactionListSize pool2 = poolBytes exEnv pool2 \<and>
   reachable exEnv pool1 \<and>
   fst (mergeConflicts exEnv pool1 [txB, txC] [11] exTxnFn) = Inr [txA, txB, txC] \<and>
   transactionListSize (snd (mergeConflicts exEnv pool1 [txB, txC] [11] exTxnFn)) =
     transactionListSize pool1
     - (\<Sum>c\<in>set (supersetKeys exEnv pool1 [11]). EncodedLen exEnv (lookupSet pool1 c))
     + EncodedLen exEnv [txA, txB, txC]"
proof -
  have r1: "reachable exEnv pool1"
    by (rule reachable_submit[OF reachable_new refl refl ex_step1])
  have r2: "reachable exEnv pool2"
    by (rule reachable_submit[OF r1 refl refl ex_step2])
  have m: "fst (mergeConflicts exEnv pool1 [txB, txC] [11] exTxnFn) = Inr [txA, txB, txC]"
    by (simp add: ex_defs pool_defs)
  from size_invariant[OF r2] have s2: "transactionListSize pool2 = poolBytes exEnv pool2"
    by blast
  from size_invariant[OF r1] m have
    "transactionListSize (snd (mergeConflicts exEnv pool1 [txB, txC] [11] exTxnFn)) =
     transactionListSize pool1
     - (\<Sum>c\<in>set (supersetKeys exEnv pool1 [11]). EncodedLen exEnv (lookupSet pool1 c))
     + EncodedLen exEnv [txA, txB, txC]"
    by blast
  with r1 r2 s2 m show ?thesis by blast
qed

subsection \<open>What a success installs\<close>

lemma addSet_fields:
  "transactionSets (addSet e s oids cc tp) (setIDof e s) = Some s"
  "transactionSetDiffs (addSet e s oids cc tp) (setIDof e s) = Some cc"
  "knownObjects (addSet e s oids cc tp) x =
     (if x \<in> set oids then Some (setIDof e s) else knownObjects tp x)"
  "transactionListSize (addSet e s oids cc tp) = transactionListSize tp + EncodedLen e s"
  "transactionHeights (addSet e s oids cc tp) i =
     (case transactionHeights tp i of
        Some h \<Rightarrow> Some h
      | None \<Rightarrow> if i \<in> ID ` set s then Some (blockHeight tp) else None)"
  "blockHeight (addSet e s oids cc tp) = blockHeight tp"
  by (simp_all add: addSet_def Let_def assignObjects_apply recordHeights_apply)



subsection \<open>Submitting a set twice\<close>

lemma accept_registers:
  assumes "fst (acceptTransactionSet e tp ts f) = Inr s"
  shows "transactionSets (snd (acceptTransactionSet e tp ts f)) (setIDof e s) = Some s"
proof -
  from accept_shape[OF assms] obtain cc ks oids where
    "snd (acceptTransactionSet e tp ts f) = addSet e s oids cc (evictConflicts e ks tp)"
    by blast
  then show ?thesis by (simp add: addSet_fields)
qed

lemma accept_success_checks:
  assumes "fst (acceptTransactionSet e tp ts f) = Inr s"
  shows "filter (\<lambda>txn. \<not> transactionConfirmed e (ID txn)) ts \<noteq> [] \<and>
         (\<exists>setSize. isStandardTransactionSet e
              (filter (\<lambda>txn. \<not> transactionConfirmed e (ID txn)) ts) = Inr setSize)"
  using assms
  by (auto simp: acceptTransactionSet_def Let_def checkTransactionSetComposition_def
           split: sum.splits option.splits if_splits)

lemma handleConflicts_covered:
  assumes "ts \<noteq> []" "c \<in> set cs" "ID ` set ts \<subseteq> ID ` set (lookupSet tp c)"
  shows "handleConflicts e tp ts cs f = (Inl ErrDuplicateTransactionSet, tp)"
proof -
  have "ID t \<in> ID ` (\<Union>c\<in>set cs. set (lookupSet tp c))" if "t \<in> set ts" for t
  proof -
    from that assms(3) have "ID t \<in> ID ` set (lookupSet tp c)" by blast
    with assms(2) show ?thesis by blast
  qed
  then have "dedupSet tp cs ts = []"
    by (simp add: dedupSet_conv filter_empty_conv)
  then show ?thesis by (subst handleConflicts_unfold) simp
qed

lemma accept_success_fees:
  assumes "fst (acceptTransactionSet e tp ts f) = Inr s"
  shows "sum_list (concat (map MinerFees
           (filter (\<lambda>txn. \<not> transactionConfirmed e (ID txn)) ts))) \<le> maxCurrency"
proof (rule ccontr)
  assume "\<not> ?thesis"
  then have "setFees (filter (\<lambda>txn. \<not> transactionConfirmed e (ID txn)) ts) = None"
    by (simp add: setFees_sum)
  with assms show False
    by (auto simp: acceptTransactionSet_def Let_def split: sum.splits option.splits if_splits)
qed

text \<open>
  Claim C7, amended. Let a first call succeed, and let the same list be submitted again
  to the pool it leaves (same confirmations). If the first call admitted the filtered
  list itself, the second returns \<open>ErrDuplicateTransactionSet\<close> and the pool unchanged.
  If the first call returned a superset that contains every transaction of the filtered
  list, and \<open>knownObjects\<close> maps one of the list's objects to that superset, the second
  call leaves the pool unchanged and returns \<open>errLowMinerFees\<close> when the list's own hash
  is not registered and its fees are below the fee required at the new pool size (the fee
  check comes before the resolver), and \<open>ErrDuplicateTransactionSet\<close> otherwise; where
  that required fee itself exceeds 128 bits, \<open>Mul64\<close> panics instead.
\<close>

theorem resubmit:
  assumes "fst (acceptTransactionSet e tp ts f) = Inr s"
    and "tp1 = snd (acceptTransactionSet e tp ts f)"
    and "ts' = filter (\<lambda>txn. \<not> transactionConfirmed e (ID txn)) ts"
  shows "(s = ts' \<longrightarrow>
            acceptTransactionSet e tp1 ts g = (Inl ErrDuplicateTransactionSet, tp1)) \<and>
         (\<exists>setSize. isStandardTransactionSet e ts' = Inr setSize \<and>
            (set ts' \<subseteq> set s \<and> setIDof e s \<in> set (findConflicts tp1 (relatedObjectIDs e ts')) \<longrightarrow>
               acceptTransactionSet e tp1 ts g =
                 (Inl (if transactionSets tp1 (setIDof e ts') = None \<and>
                          maxCurrency < requiredFeesToExtendTpool e tp1 * setSize
                       then CurrencyOverflow
                       else if transactionSets tp1 (setIDof e ts') = None \<and>
                          sum_list (concat (map MinerFees ts'))
                            < requiredFeesToExtendTpool e tp1 * setSize
                       then errLowMinerFees else ErrDuplicateTransactionSet), tp1)))"
proof -
  from accept_success_checks[OF assms(1)] obtain setSize where
    ne: "ts' \<noteq> []" and std: "isStandardTransactionSet e ts' = Inr setSize"
    unfolding assms(3) by blast
  have ts_ne: "ts \<noteq> []" using ne assms(3) by auto
  have fees: "setFees ts' = Some (sum_list (concat (map MinerFees ts')))"
    using accept_success_fees[OF assms(1)] unfolding assms(3) by (simp add: setFees_sum)
  have reg: "transactionSets tp1 (setIDof e s) = Some s"
    unfolding assms(2) by (rule accept_registers[OF assms(1)])
  have A: "acceptTransactionSet e tp1 ts g = (Inl ErrDuplicateTransactionSet, tp1)" if "s = ts'"
    using that reg ne ts_ne assms(3)
    by (simp add: acceptTransactionSet_def Let_def checkTransactionSetComposition_def)
  have B: "acceptTransactionSet e tp1 ts g =
             (Inl (if transactionSets tp1 (setIDof e ts') = None \<and>
                      maxCurrency < requiredFeesToExtendTpool e tp1 * setSize
                   then CurrencyOverflow
                   else if transactionSets tp1 (setIDof e ts') = None \<and>
                      sum_list (concat (map MinerFees ts'))
                        < requiredFeesToExtendTpool e tp1 * setSize
                   then errLowMinerFees else ErrDuplicateTransactionSet), tp1)"
    if sub: "set ts' \<subseteq> set s"
      and mem: "setIDof e s \<in> set (findConflicts tp1 (relatedObjectIDs e ts'))"
  proof (cases "transactionSets tp1 (setIDof e ts') = None")
    case False
    then show ?thesis using ne ts_ne assms(3)
      by (auto simp: acceptTransactionSet_def Let_def checkTransactionSetComposition_def)
  next
    case True
    then have chk: "checkTransactionSetComposition e tp1 ts' = Inr setSize"
      by (simp add: checkTransactionSetComposition_def std)
    show ?thesis
    proof (cases "maxCurrency < requiredFeesToExtendTpool e tp1 * setSize")
      case over: True
      then have "Currency_Mul64 (requiredFeesToExtendTpool e tp1) setSize = None"
        by (simp add: Currency_Mul64_def)
      with True chk ne ts_ne over show ?thesis
        unfolding acceptTransactionSet_def Let_def assms(3)[symmetric] by simp
    next
      case fits: False
      then have mul: "Currency_Mul64 (requiredFeesToExtendTpool e tp1) setSize =
                        Some (requiredFeesToExtendTpool e tp1 * setSize)"
        by (simp add: Currency_Mul64_def)
      show ?thesis
      proof (cases "sum_list (concat (map MinerFees ts'))
                      < requiredFeesToExtendTpool e tp1 * setSize")
        case low: True
        with True chk ne ts_ne fits mul fees show ?thesis
          unfolding acceptTransactionSet_def Let_def assms(3)[symmetric] by simp
      next
        case ok: False
        have cne: "findConflicts tp1 (relatedObjectIDs e ts') \<noteq> []" using mem by auto
        have look: "lookupSet tp1 (setIDof e s) = s" using reg by (simp add: lookupSet_def)
        have "ID ` set ts' \<subseteq> ID ` set (lookupSet tp1 (setIDof e s))"
          using sub look by auto
        from handleConflicts_covered[OF ne mem this]
        have "handleConflicts e tp1 ts' (findConflicts tp1 (relatedObjectIDs e ts')) g =
                (Inl ErrDuplicateTransactionSet, tp1)" .
        with True chk ne ts_ne ok cne fits mul fees show ?thesis
          unfolding acceptTransactionSet_def Let_def assms(3)[symmetric] by simp
      qed
    qed
  qed
  from A B std show ?thesis by blast
qed

theorem resubmit_witness:
  "fst (acceptTransactionSet exEnv (newPool 0) [txA] exTxnFn) = Inr [txA] \<and>
   acceptTransactionSet exEnv pool1 [txA] exTxnFn = (Inl ErrDuplicateTransactionSet, pool1) \<and>
   fst (acceptTransactionSet exEnv pool1 [txB, txC] exTxnFn) = Inr [txA, txB, txC] \<and>
   set [txB, txC] \<subseteq> set [txA, txB, txC] \<and>
   setIDof exEnv [txA, txB, txC] \<in> set (findConflicts pool2 (relatedObjectIDs exEnv [txB, txC])) \<and>
   acceptTransactionSet exEnv pool2 [txB, txC] exTxnFn = (Inl errLowMinerFees, pool2)"
proof -
  have h: "fst (acceptTransactionSet exEnv (newPool 0) [txA] exTxnFn) = Inr [txA]"
    by (simp add: ex_step1)
  have p: "pool1 = snd (acceptTransactionSet exEnv (newPool 0) [txA] exTxnFn)"
    by (simp add: ex_step1)
  have f: "[txA] = filter (\<lambda>txn. \<not> transactionConfirmed exEnv (ID txn)) [txA]"
    by (simp add: ex_defs)
  from resubmit[OF h p f, of exTxnFn]
  have a: "acceptTransactionSet exEnv pool1 [txA] exTxnFn = (Inl ErrDuplicateTransactionSet, pool1)"
    by blast
  have h2: "fst (acceptTransactionSet exEnv pool1 [txB, txC] exTxnFn) = Inr [txA, txB, txC]"
    by (simp add: ex_step2)
  have p2: "pool2 = snd (acceptTransactionSet exEnv pool1 [txB, txC] exTxnFn)"
    by (simp add: ex_step2)
  have f2: "[txB, txC] = filter (\<lambda>txn. \<not> transactionConfirmed exEnv (ID txn)) [txB, txC]"
    by (simp add: ex_defs)
  have sub: "set [txB, txC] \<subseteq> set [txA, txB, txC]" by auto
  have mem: "setIDof exEnv [txA, txB, txC] \<in>
               set (findConflicts pool2 (relatedObjectIDs exEnv [txB, txC]))"
    by (simp add: ex_defs pool_defs)
  have b: "acceptTransactionSet exEnv pool2 [txB, txC] exTxnFn = (Inl errLowMinerFees, pool2)"
    by (rule ex_step2_again)
  from resubmit[OF h2 p2 f2, of exTxnFn] sub mem
  have "\<exists>setSize. acceptTransactionSet exEnv pool2 [txB, txC] exTxnFn =
          (Inl (if transactionSets pool2 (setIDof exEnv [txB, txC]) = None \<and>
                   maxCurrency < requiredFeesToExtendTpool exEnv pool2 * setSize
                then CurrencyOverflow
                else if transactionSets pool2 (setIDof exEnv [txB, txC]) = None \<and>
                   sum_list (concat (map MinerFees [txB, txC]))
                     < requiredFeesToExtendTpool exEnv pool2 * setSize
                then errLowMinerFees else ErrDuplicateTransactionSet), pool2)"
    by blast
  with h a h2 sub mem b show ?thesis by blast
qed

text \<open>
  Claim C7 as stated fails: \<open>[txB, txC]\<close>, without fees, is merged into
  \<open>[txA, txB, txC]\<close> while 9 bytes are pooled; the pool then holds 11 bytes, a fee is
  due, and the second submission of \<open>[txB, txC]\<close> returns \<open>errLowMinerFees\<close>.
\<close>

theorem resubmit_counterexample:
  "fst (acceptTransactionSet exEnv pool1 [txB, txC] exTxnFn) = Inr [txA, txB, txC] \<and>
   acceptTransactionSet exEnv (snd (acceptTransactionSet exEnv pool1 [txB, txC] exTxnFn))
     [txB, txC] exTxnFn = (Inl errLowMinerFees, pool2) \<and>
   errLowMinerFees \<noteq> ErrDuplicateTransactionSet"
  by (simp add: ex_step2 ex_step2_again)

end
